theory Spec2Isabelle
  imports Main "HOL-Library.AList"
begin

section \<open>Values, errors and the Paper entity\<close>

text \<open>
  The program is \<^verbatim>\<open>tethne/persistence/psql/paper.py\<close>: the class \<^verbatim>\<open>SQLPapers\<close>, a
  list of row identifiers whose elements are resolved to \<^verbatim>\<open>Paper\<close> objects through a
  PostgreSQL connection. A cell of a row, and a field of a Paper, is one of the values
  below; \<open>Null\<close> is SQL's NULL and Python's \<^verbatim>\<open>None\<close>.
\<close>

datatype val =
    Null
  | Text string
  | Num int
  | Texts "string list"
  | Textss "string list list"
  | Ints "int list"

text \<open>
  The exceptions the code can meet: those of the driver and Python's own. Of the driver:
  \<open>IntegrityError\<close> with the server's message; \<open>ProgrammingError\<close> for a statement
  that names a table or a column that does not exist; \<open>InternalError\<close> for a statement
  sent inside an aborted transaction; and \<open>DatabaseError\<close>, which stands for what the
  driver raises when the server does not accept a value or a sequence has run out
  (a \<^verbatim>\<open>psycopg2.DataError\<close> or a \<^verbatim>\<open>psycopg2.ProgrammingError\<close> according to the case: both
  are \<^verbatim>\<open>DatabaseError\<close>s, neither is an \<^verbatim>\<open>IntegrityError\<close>, and the code tells them apart
  nowhere).
\<close>

datatype error =
    IntegrityError string
  | ProgrammingError
  | InternalError
  | DatabaseError
  | TypeError
  | KeyError string
  | IndexError
  | ValueError string

text \<open>The columns of \<^verbatim>\<open>PAPER_TABLE\<close>, in the order of the \<^verbatim>\<open>CREATE TABLE\<close> statement.\<close>

definition columns :: "string list" where
  "columns =
    [''id'', ''aulast'', ''auinit'', ''auuri'', ''institutions'', ''atitle'', ''jtitle'',
     ''volume'', ''issue'', ''spage'', ''epage'', ''date'', ''ayjid'', ''uri'', ''doi'',
     ''pmid'', ''wosid'', ''eid'', ''abstract'', ''contents'', ''topics'', ''accession'',
     ''citations'']"

text \<open>The types of the columns, as \<^verbatim>\<open>PAPER_TABLE\<close> declares them.\<close>

datatype coltype = TText | TInteger | TTextArray | TIntegerArray

definition column_type :: "string \<Rightarrow> coltype" where
  "column_type col =
    (if col = ''id'' \<or> col = ''date'' then TInteger
     else if col \<in> set [''aulast'', ''auinit'', ''auuri'', ''institutions''] then TTextArray
     else if col = ''citations'' then TIntegerArray
     else TText)"

text \<open>The columns declared \<^verbatim>\<open>UNIQUE\<close>, in the order of their declaration.\<close>

definition unique_cols :: "string list" where
  "unique_cols = [''uri'', ''doi'', ''pmid'', ''wosid'', ''eid'']"

text \<open>
  Modelled from the spec: the class \<^verbatim>\<open>Paper\<close> (imported from \<^verbatim>\<open>...classes\<close>, not part of
  the source at hand). The spec describes it as a mapping from field name to value with a
  distinguished field \<^verbatim>\<open>citations\<close> holding a sequence of Papers or null, supporting get and
  set by name and the enumeration of its (name, value) pairs, and says that a column with no
  field of that name (the primary key) cannot be assigned. Its fields are the columns of
  the table but \<^verbatim>\<open>id\<close>. The field \<^verbatim>\<open>citations\<close> is kept apart from the others because it
  alone holds Papers.
\<close>

datatype paper = Paper (field: "string \<Rightarrow> val") (citations: "paper list option")

definition scalar_fields :: "string list" where
  "scalar_fields = butlast (tl columns)"

definition paper_fields :: "string list" where
  "paper_fields = scalar_fields @ [''citations'']"

text \<open>\<^verbatim>\<open>Paper()\<close>: every field is \<^verbatim>\<open>None\<close>.\<close>

definition new_paper :: paper where
  "new_paper = Paper (\<lambda>k. Null) None"

text \<open>What the decoder assigns to a field: a cell of the row, or a list of Papers.\<close>

datatype pyval = Cell val | Papers "paper list"

text \<open>\<^verbatim>\<open>paper[key] = value\<close>: fails for a name that is not a field.\<close>

definition setitem :: "paper \<Rightarrow> string \<Rightarrow> pyval \<Rightarrow> error + paper" where
  "setitem p key v =
    (if key \<notin> set paper_fields then Inl (KeyError key)
     else if key = ''citations'' then
       (case v of
          Papers ps \<Rightarrow> Inr (Paper (field p) (Some ps))
        | Cell Null \<Rightarrow> Inr (Paper (field p) None)
        | Cell _ \<Rightarrow> Inl (ValueError key))
     else
       (case v of
          Cell x \<Rightarrow> Inr (Paper ((field p)(key := x)) (citations p))
        | Papers _ \<Rightarrow> Inl (ValueError key)))"

text \<open>
  \<^verbatim>\<open>{ k:v for k,v in obj.iteritems() if k != 'citations' }\<close>: the dictionary of the fields
  but \<^verbatim>\<open>citations\<close>, as an association list.
\<close>

definition items_but_citations :: "paper \<Rightarrow> (string \<times> val) list" where
  "items_but_citations p = map (\<lambda>k. (k, field p k)) scalar_fields"

section \<open>The database behind the connection\<close>

text \<open>
  The connection and the server are not code of the repository; the model below is the
  part of their contract that the code relies on. A table has the schema of
  \<^verbatim>\<open>PAPER_TABLE\<close>: a row is its \<^verbatim>\<open>id\<close> and a value for every other column; the rows are
  kept in the order a sequential scan returns them, and \<open>serial\<close> is the last value the
  sequence behind \<^verbatim>\<open>id\<close> has issued. A connection holds the tables by name and the flag of
  an aborted transaction: a statement that fails on the server aborts the transaction,
  every statement sent before the next \<^verbatim>\<open>commit\<close> is refused, and \<^verbatim>\<open>commit\<close> ends the
  aborted transaction. The code commits right after each insert that succeeds, so an
  insert writes the table at once.

  Two choices of the server are parameters of the connection, of which nothing is
  assumed: \<open>convert\<close>, what it makes of a value that is not of the type of its column
  (\<open>None\<close> when it refuses the value), in an \<^verbatim>\<open>INSERT\<close> (\<open>Stored\<close>) or in a comparison
  (\<open>Compared\<close>); and \<open>place\<close>, where in the order of the scan it puts a new row, given
  the name of the table and its state, the sequence included (a new row need not
  come last: the server reuses the room of rows that are no longer visible).
\<close>

record row =
  rid :: int
  rvals :: "string \<Rightarrow> val"

record table =
  rows :: "row list"
  serial :: int

datatype usage = Stored | Compared

record conn =
  tables :: "(string \<times> table) list"
  aborted :: bool
  convert :: "usage \<Rightarrow> coltype \<Rightarrow> val \<Rightarrow> val option"
  place :: "string \<Rightarrow> table \<Rightarrow> nat"

definition commit :: "conn \<Rightarrow> conn" where
  "commit c = c\<lparr>aborted := False\<rparr>"

text \<open>\<^verbatim>\<open>CREATE TABLE\<close>: refused when a table of that name exists.\<close>

definition execute_create :: "conn \<Rightarrow> string \<Rightarrow> (error + unit) \<times> conn" where
  "execute_create c tname =
    (if aborted c then (Inl InternalError, c)
     else case map_of (tables c) tname of
       Some t \<Rightarrow> (Inl ProgrammingError, c\<lparr>aborted := True\<rparr>)
     | None \<Rightarrow> (Inr (), c\<lparr>tables := tables c @ [(tname, \<lparr>rows = [], serial = 0\<rparr>)]\<rparr>))"

text \<open>The tuple \<^verbatim>\<open>SELECT *\<close> returns for a row: its cells in the order of the columns.\<close>

definition cell :: "row \<Rightarrow> string \<Rightarrow> val" where
  "cell r col = (if col = ''id'' then Num (rid r) else rvals r col)"

definition tuple_of :: "row \<Rightarrow> val list" where
  "tuple_of r = map (cell r) columns"

text \<open>The text of a value in a message of the server.\<close>

fun show_nat :: "nat \<Rightarrow> string" where
  "show_nat n = (if n < 10 then [char_of (48 + n)] else show_nat (n div 10) @ [char_of (48 + n mod 10)])"

definition show_int :: "int \<Rightarrow> string" where
  "show_int i = (if i < 0 then CHR ''-'' # show_nat (nat (- i)) else show_nat (nat i))"

definition braces :: "string list \<Rightarrow> string" where
  "braces xs = ''{'' @ concat (case xs of [] \<Rightarrow> [] | y # ys \<Rightarrow> y # map (\<lambda>z. '','' @ z) ys) @ ''}''"

fun show_val :: "val \<Rightarrow> string" where
  "show_val Null = ''''"
| "show_val (Text s) = s"
| "show_val (Num i) = show_int i"
| "show_val (Texts xs) = braces xs"
| "show_val (Textss xss) = braces (map braces xss)"
| "show_val (Ints is) = braces (map show_int is)"

text \<open>
  The values a column stores as they are: NULL in every column; in a \<^verbatim>\<open>text\<close> column a
  text of ASCII characters (a conservative choice: the server's encoding decides on
  other bytes); in an \<^verbatim>\<open>integer\<close> column an integer of four bytes; in a \<^verbatim>\<open>text[]\<close> or
  \<^verbatim>\<open>text[][]\<close> column (the server does not keep the number of dimensions) a list of such
  texts or a rectangular list of lists of them; in an \<^verbatim>\<open>integer[]\<close> column a list of such
  integers.
\<close>

definition plain_text :: "string \<Rightarrow> bool" where
  "plain_text s = list_all (\<lambda>ch. 0 < (of_char ch :: nat) \<and> (of_char ch :: nat) < 128) s"

definition int4 :: "int \<Rightarrow> bool" where
  "int4 i = (- 2147483648 \<le> i \<and> i \<le> 2147483647)"

fun fits :: "coltype \<Rightarrow> val \<Rightarrow> bool" where
  "fits T Null = True"
| "fits TText (Text s) = plain_text s"
| "fits TInteger (Num i) = int4 i"
| "fits TTextArray (Texts xs) = list_all plain_text xs"
| "fits TTextArray (Textss xss) =
     (xss \<noteq> [] \<and> hd xss \<noteq> [] \<and>
      list_all (\<lambda>xs. length xs = length (hd xss) \<and> list_all plain_text xs) xss)"
| "fits TIntegerArray (Ints is) = list_all int4 is"
| "fits T v = False"

text \<open>
  What the server makes of a value for a column of type \<open>T\<close>. A value that fits is taken
  as it is. Two cases of a value that does not fit are known and written out: an integer
  stored in a \<^verbatim>\<open>text\<close> column is stored as its decimal text, and an integer that is not of
  four bytes is refused by an \<^verbatim>\<open>integer\<close> column; so is the comparison of a \<^verbatim>\<open>text\<close> column
  with an integer (there is no such operator). Every other case is left to \<open>convert\<close>.
\<close>

fun known_case :: "usage \<Rightarrow> coltype \<Rightarrow> val \<Rightarrow> (error + val) option" where
  "known_case Stored TText (Num i) = Some (Inr (Text (show_int i)))"
| "known_case Stored TInteger (Num i) = Some (Inl DatabaseError)"
| "known_case Compared TText (Num i) = Some (Inl DatabaseError)"
| "known_case u T v = None"

definition server_value :: "conn \<Rightarrow> usage \<Rightarrow> coltype \<Rightarrow> val \<Rightarrow> error + val" where
  "server_value c u T v =
    (if fits T v then Inr v
     else case known_case u T v of
       Some r \<Rightarrow> r
     | None \<Rightarrow> (case convert c u T v of None \<Rightarrow> Inl DatabaseError | Some v' \<Rightarrow> Inr v'))"

text \<open>
  The values of an \<^verbatim>\<open>INSERT\<close> as the server stores them, or the refusal of one of them.
\<close>

fun read_vals :: "conn \<Rightarrow> (string \<times> val) list \<Rightarrow> error + (string \<times> val) list" where
  "read_vals c [] = Inr []"
| "read_vals c (kv # kvs) =
    (case server_value c Stored (column_type (fst kv)) (snd kv) of
       Inl e \<Rightarrow> Inl e
     | Inr v \<Rightarrow>
         (case read_vals c kvs of
            Inl e \<Rightarrow> Inl e
          | Inr kvs' \<Rightarrow> Inr ((fst kv, v) # kvs')))"

text \<open>The row of a list of values: a column that is not named is NULL.\<close>

definition row_of :: "(string \<times> val) list \<Rightarrow> string \<Rightarrow> val" where
  "row_of kvs k = (case map_of kvs k of None \<Rightarrow> Null | Some v \<Rightarrow> v)"

text \<open>A new element at position \<open>k\<close> of a list (at its end when \<open>k\<close> is beyond it).\<close>

definition put :: "nat \<Rightarrow> 'a \<Rightarrow> 'a list \<Rightarrow> 'a list" where
  "put k x xs = take k xs @ x # drop k xs"

text \<open>
  The first unique index a new row violates, with the offending value: the primary key
  first, then the unique columns in the order of their declaration. NULL never conflicts.
\<close>

definition find_conflict :: "row list \<Rightarrow> int \<Rightarrow> (string \<Rightarrow> val) \<Rightarrow> (string \<times> val) option" where
  "find_conflict rs i f =
    (if list_ex (\<lambda>r. rid r = i) rs then Some (''id'', Num i)
     else case filter (\<lambda>k. f k \<noteq> Null \<and> list_ex (\<lambda>r. rvals r k = f k) rs) unique_cols of
       [] \<Rightarrow> None
     | k # _ \<Rightarrow> Some (k, f k))"

text \<open>
  The server's message for a violated unique index, which is the text of the driver's
  \<^verbatim>\<open>IntegrityError\<close>. The index of the primary key is named \<^verbatim>\<open><table>_pkey\<close>, that of a
  unique column \<^verbatim>\<open><table>_<column>_key\<close>.
\<close>

definition violation_message :: "string \<Rightarrow> string \<Rightarrow> val \<Rightarrow> string" where
  "violation_message tname col v =
    ''duplicate key value violates unique constraint '' @ [CHR 0x22] @ tname @
    (if col = ''id'' then ''_pkey'' else ''_'' @ col @ ''_key'') @ [CHR 0x22, CHR 0x0A] @
    ''DETAIL:  Key ('' @ col @ '')=('' @ show_val v @ '') already exists.'' @ [CHR 0x0A]"

text \<open>
  \<^verbatim>\<open>INSERT INTO t (keys) VALUES (...) RETURNING id\<close> and \<^verbatim>\<open>fetchone()[0]\<close>. The server
  reads the values as of the types of their columns and refuses the statement when it
  refuses one of them. A column that is not named gets NULL, and \<^verbatim>\<open>id\<close> the next value of
  the sequence, which ends at 2147483647 and stays consumed when the insert fails on a
  unique index.
\<close>

definition execute_insert :: "conn \<Rightarrow> string \<Rightarrow> (string \<times> val) list \<Rightarrow> (error + int) \<times> conn" where
  "execute_insert c tname vals =
    (if aborted c then (Inl InternalError, c)
     else case map_of (tables c) tname of
       None \<Rightarrow> (Inl ProgrammingError, c\<lparr>aborted := True\<rparr>)
     | Some t \<Rightarrow>
         if \<not> list_all (\<lambda>kv. fst kv \<in> set (tl columns)) vals
         then (Inl ProgrammingError, c\<lparr>aborted := True\<rparr>)
         else
           (case read_vals c vals of
              Inl e \<Rightarrow> (Inl e, c\<lparr>aborted := True\<rparr>)
            | Inr stored \<Rightarrow>
                if 2147483647 \<le> serial t then (Inl DatabaseError, c\<lparr>aborted := True\<rparr>)
                else
                  let i = serial t + 1; f = row_of stored
                  in case find_conflict (rows t) i f of
                       Some (k, v) \<Rightarrow>
                         (Inl (IntegrityError (violation_message tname k v)),
                          c\<lparr>tables := AList.update tname (t\<lparr>serial := i\<rparr>) (tables c),
                            aborted := True\<rparr>)
                     | None \<Rightarrow>
                         (Inr i,
                          c\<lparr>tables := AList.update tname
                              \<lparr>rows = put (place c tname t) \<lparr>rid = i, rvals = f\<rparr> (rows t),
                               serial = i\<rparr> (tables c)\<rparr>)))"

text \<open>
  \<^verbatim>\<open>SELECT id FROM t WHERE col = %s\<close> and \<^verbatim>\<open>fetchone()\<close>: the \<^verbatim>\<open>id\<close> of the first row whose
  cell equals the value as the server reads it, \<^verbatim>\<open>None\<close> when there is none. A comparison
  with NULL is never true.
\<close>

definition execute_select_id_where ::
  "conn \<Rightarrow> string \<Rightarrow> string \<Rightarrow> val \<Rightarrow> (error + int option) \<times> conn" where
  "execute_select_id_where c tname col v =
    (if aborted c then (Inl InternalError, c)
     else case map_of (tables c) tname of
       None \<Rightarrow> (Inl ProgrammingError, c\<lparr>aborted := True\<rparr>)
     | Some t \<Rightarrow>
         if col \<notin> set columns then (Inl ProgrammingError, c\<lparr>aborted := True\<rparr>)
         else
           (case server_value c Compared (column_type col) v of
              Inl e \<Rightarrow> (Inl e, c\<lparr>aborted := True\<rparr>)
            | Inr v' \<Rightarrow>
                (Inr (map_option rid
                   (find (\<lambda>r. v' \<noteq> Null \<and> cell r col = v') (rows t))), c)))"

text \<open>
  \<^verbatim>\<open>SELECT * FROM t WHERE id = %s\<close> and \<^verbatim>\<open>fetchone()\<close>, and \<^verbatim>\<open>SELECT * FROM t\<close>, read on
  the tables alone (the flag of the connection is looked at by the callers below).
  \<^verbatim>\<open>fetchone\<close> returns \<^verbatim>\<open>None\<close> when the query has no (further) row; the driver raises
  \<^verbatim>\<open>ProgrammingError\<close> from it only after a statement that returns no result set, which a
  \<^verbatim>\<open>SELECT\<close> is not.
\<close>

definition fetch_by_id :: "(string \<times> table) list \<Rightarrow> string \<Rightarrow> int \<Rightarrow> error + val list option" where
  "fetch_by_id db tname i =
    (case map_of db tname of
       None \<Rightarrow> Inl ProgrammingError
     | Some t \<Rightarrow> Inr (map_option tuple_of (find (\<lambda>r. rid r = i) (rows t))))"

definition fetch_all :: "(string \<times> table) list \<Rightarrow> string \<Rightarrow> error + val list list" where
  "fetch_all db tname =
    (case map_of db tname of
       None \<Rightarrow> Inl ProgrammingError
     | Some t \<Rightarrow> Inr (map tuple_of (rows t)))"

section \<open>The store\<close>

text \<open>
  An \<^verbatim>\<open>SQLPapers\<close> object: the identifiers it holds as a Python list (the spec's
  \<open>rowIds\<close>), the name of its table, and the names of the columns it has read from the
  catalogue. The connection is shared with the stores made for the citation table, so it
  is passed beside the store.
\<close>

record store =
  rowIds :: "int list"
  name :: string
  cols :: "string list"

text \<open>
  The names of the columns, from \<^verbatim>\<open>information_schema.columns\<close>: those of the schema for
  a table that exists, none for one that does not.
\<close>

definition column_names :: "(string \<times> table) list \<Rightarrow> string \<Rightarrow> string list" where
  "column_names db tname = (case map_of db tname of None \<Rightarrow> [] | Some t \<Rightarrow> columns)"

text \<open>
  \<^verbatim>\<open>SQLPapers(conn, dbparams, table=None)\<close>: the name is made of a fresh UUID, here the
  parameter \<open>uuid\<close> (the text of \<^verbatim>\<open>str(uuid.uuid4())\<close>), and both tables are created.
\<close>

definition fresh_name :: "string \<Rightarrow> string" where
  "fresh_name uuid = ''tethne_papers_'' @ map (\<lambda>ch. if ch = CHR ''-'' then CHR ''_'' else ch) uuid"

definition init_fresh :: "conn \<Rightarrow> string \<Rightarrow> (error + store) \<times> conn" where
  "init_fresh c uuid =
    (let n = fresh_name uuid in
     case execute_create c n of
       (Inl e, c1) \<Rightarrow> (Inl e, c1)
     | (Inr _, c1) \<Rightarrow>
         (case execute_create (commit c1) (n @ ''_citations'') of
            (Inl e, c2) \<Rightarrow> (Inl e, c2)
          | (Inr _, c2) \<Rightarrow>
              (Inr \<lparr>rowIds = [], name = n, cols = column_names (tables c2) n\<rparr>, commit c2)))"

text \<open>
  \<^verbatim>\<open>SQLPapers(conn, dbparams, table=t)\<close>: the identifiers of the table are read with
  \<^verbatim>\<open>SELECT id FROM t\<close>, in the order the scan returns them; nothing is created.
\<close>

definition attach_db :: "(string \<times> table) list \<Rightarrow> string \<Rightarrow> error + store" where
  "attach_db db tname =
    (case map_of db tname of
       None \<Rightarrow> Inl ProgrammingError
     | Some t \<Rightarrow> Inr \<lparr>rowIds = map rid (rows t), name = tname, cols = column_names db tname\<rparr>)"

definition init_attach :: "conn \<Rightarrow> string \<Rightarrow> (error + store) \<times> conn" where
  "init_attach c tname =
    (if aborted c then (Inl InternalError, c)
     else case attach_db (tables c) tname of
       Inl e \<Rightarrow> (Inl e, c\<lparr>aborted := True\<rparr>)
     | Inr s \<Rightarrow> (Inr s, c))"

section \<open>Reading\<close>

text \<open>A list comprehension whose element may raise: the first exception ends it.\<close>

fun map_results :: "('a \<Rightarrow> error + 'b) \<Rightarrow> 'a list \<Rightarrow> error + 'b list" where
  "map_results g [] = Inr []"
| "map_results g (x # xs) =
    (case g x of
       Inl e \<Rightarrow> Inl e
     | Inr y \<Rightarrow> (case map_results g xs of Inl e \<Rightarrow> Inl e | Inr ys \<Rightarrow> Inr (y # ys)))"

text \<open>
  \<^verbatim>\<open>try: paper[key] = value; except: pass\<close>: a value that cannot be assigned is dropped.
\<close>

definition try_setitem :: "paper \<Rightarrow> string \<Rightarrow> pyval \<Rightarrow> paper" where
  "try_setitem p key v = (case setitem p key v of Inl e \<Rightarrow> p | Inr p' \<Rightarrow> p')"

text \<open>
  The loop of \<^verbatim>\<open>_yield_paper\<close> over the cells of a tuple, with the names of the columns
  beside them (\<^verbatim>\<open>self.cols[i]\<close> raises \<^verbatim>\<open>IndexError\<close> when the names run out). The store of
  the citation table is the argument \<open>sub\<close>: the outcome of its constructor and, when that
  succeeds, its \<^verbatim>\<open>__get_by_id\<close>. The column \<^verbatim>\<open>citations\<close> has the type \<^verbatim>\<open>integer[]\<close>, so a cell
  of it that is not NULL is a list of integers; any other cell there is answered by
  \<open>TypeError\<close>, as iterating over a number is.
\<close>

fun yield_cells ::
  "(error + (int \<Rightarrow> error + paper)) \<Rightarrow> string list \<Rightarrow> val list \<Rightarrow> paper \<Rightarrow> error + paper" where
  "yield_cells sub ks [] p = Inr p"
| "yield_cells sub [] (v # vs) p = Inl IndexError"
| "yield_cells sub (key # ks) (v # vs) p =
    (if key = ''citations'' \<and> v \<noteq> Null then
       (case sub of
          Inl e \<Rightarrow> Inl e
        | Inr get \<Rightarrow>
            (case v of
               Ints ids \<Rightarrow>
                 (case map_results get ids of
                    Inl e \<Rightarrow> Inl e
                  | Inr ps \<Rightarrow> yield_cells sub ks vs (try_setitem p key (Papers ps)))
             | _ \<Rightarrow> Inl TypeError))
     else yield_cells sub ks vs (try_setitem p key (Cell v)))"

text \<open>\<^verbatim>\<open>_yield_paper(data)\<close>: \<^verbatim>\<open>len(None)\<close> raises \<^verbatim>\<open>TypeError\<close>.\<close>

definition yield_paper_with ::
  "(error + (int \<Rightarrow> error + paper)) \<Rightarrow> string list \<Rightarrow> val list option \<Rightarrow> error + paper" where
  "yield_paper_with sub ks data =
    (case data of None \<Rightarrow> Inl TypeError | Some vs \<Rightarrow> yield_cells sub ks vs new_paper)"

text \<open>
  \<^verbatim>\<open>__get_by_id\<close> and \<^verbatim>\<open>_yield_paper\<close> on the tables. The handler of
  \<^verbatim>\<open>ProgrammingError\<close> around \<^verbatim>\<open>fetchone\<close> is never entered (see \<open>fetch_by_id\<close>), so a
  missing row reaches \<^verbatim>\<open>_yield_paper\<close> as \<^verbatim>\<open>None\<close>. The store for the citations is attached
  to the table named after this one, and its own \<^verbatim>\<open>__get_by_id\<close> resolves each identifier.
\<close>

function get_by_id_db :: "(string \<times> table) list \<Rightarrow> store \<Rightarrow> int \<Rightarrow> error + paper"
  and yield_paper :: "(string \<times> table) list \<Rightarrow> store \<Rightarrow> val list option \<Rightarrow> error + paper" where
  "get_by_id_db db s i =
    (case fetch_by_id db (name s) i of
       Inl e \<Rightarrow> Inl e
     | Inr data \<Rightarrow> yield_paper db s data)"
| "yield_paper db s data =
    yield_paper_with
      (case attach_db db (name s @ ''_citations'') of
         Inl e \<Rightarrow> Inl e
       | Inr s' \<Rightarrow> Inr (\<lambda>k. get_by_id_db db s' k))
      (cols s) data"
  by pat_completeness auto

termination get_by_id_db
proof (relation "measure
    (\<lambda>x. case x of
       Inl (db, s, i) \<Rightarrow> 2 * length (filter (\<lambda>nt. length (name s) < length (fst nt)) db) + 1
     | Inr (db, s, d) \<Rightarrow> 2 * length (filter (\<lambda>nt. length (name s) < length (fst nt)) db))")
  fix db :: "(string \<times> table) list" and s s' :: store and i k :: int and data :: "val list option"
  assume "attach_db db (name s @ ''_citations'') = Inr s'"
  then obtain t where t: "map_of db (name s') = Some t" and n: "name s' = name s @ ''_citations''"
    by (auto simp: attach_db_def split: option.splits)
  let ?P = "\<lambda>nt::string \<times> table. length (name s) < length (fst nt)"
  let ?Q = "\<lambda>nt::string \<times> table. length (name s') < length (fst nt)"
  have mem: "(name s', t) \<in> set (filter ?P db)"
    using t n by (auto dest: map_of_SomeD)
  have "filter ?Q db = filter ?Q (filter ?P db)"
    using n by (auto intro: filter_cong)
  moreover have "length (filter ?Q (filter ?P db)) < length (filter ?P db)"
    by (rule length_filter_less [OF mem]) simp
  ultimately show "(Inl (db, s', k), Inr (db, s, data)) \<in> measure
    (\<lambda>x. case x of
       Inl (db, s, i) \<Rightarrow> 2 * length (filter (\<lambda>nt. length (name s) < length (fst nt)) db) + 1
     | Inr (db, s, d) \<Rightarrow> 2 * length (filter (\<lambda>nt. length (name s) < length (fst nt)) db))"
    by simp
qed simp_all

declare get_by_id_db.simps [simp del] yield_paper.simps [simp del]

text \<open>
  \<^verbatim>\<open>__get_by_id\<close> on the connection. No exception is caught on this path, so the first
  statement that fails ends the call: inside an aborted transaction that is the first
  \<^verbatim>\<open>execute\<close>; otherwise the tables decide, and the transaction is left aborted exactly
  when it was the server that refused a statement.
\<close>

definition get_by_id :: "store \<Rightarrow> conn \<Rightarrow> int \<Rightarrow> (error + paper) \<times> conn" where
  "get_by_id s c i =
    (if aborted c then (Inl InternalError, c)
     else case get_by_id_db (tables c) s i of
       Inl e \<Rightarrow> (Inl e, c\<lparr>aborted := (e = ProgrammingError)\<rparr>)
     | Inr p \<Rightarrow> (Inr p, c))"

text \<open>
  \<^verbatim>\<open>list.__getitem__(self, key)\<close> for an integer key: a negative key counts from the end,
  and a key outside \<open>-n \<le> key < n\<close> raises \<^verbatim>\<open>IndexError\<close>.
\<close>

definition list_getitem :: "'a list \<Rightarrow> int \<Rightarrow> error + 'a" where
  "list_getitem xs key =
    (let n = int (length xs); j = (if key < 0 then key + n else key)
     in if 0 \<le> j \<and> j < n then Inr (xs ! nat j) else Inl IndexError)"

text \<open>\<^verbatim>\<open>__getitem__\<close>.\<close>

definition getitem :: "store \<Rightarrow> conn \<Rightarrow> int \<Rightarrow> (error + paper) \<times> conn" where
  "getitem s c key =
    (case list_getitem (rowIds s) key of
       Inl e \<Rightarrow> (Inl e, c)
     | Inr i \<Rightarrow> get_by_id s c i)"

text \<open>
  \<^verbatim>\<open>__iter__\<close>, a generator: what it hands to its consumer is a sequence of Papers, ended
  by the exhaustion of the cursor or by the first exception. The model returns the whole
  sequence, an exception being its last element.
\<close>

fun yield_each :: "(val list \<Rightarrow> error + paper) \<Rightarrow> val list list \<Rightarrow> (error + paper) list" where
  "yield_each y [] = []"
| "yield_each y (d # ds) =
    (case y d of
       Inl e \<Rightarrow> [Inl e]
     | Inr p \<Rightarrow> Inr p # yield_each y ds)"

definition iter :: "store \<Rightarrow> conn \<Rightarrow> (error + paper) list \<times> conn" where
  "iter s c =
    (if aborted c then ([Inl InternalError], c)
     else case fetch_all (tables c) (name s) of
       Inl e \<Rightarrow> ([Inl e], c\<lparr>aborted := True\<rparr>)
     | Inr ds \<Rightarrow>
         (let out = yield_each (\<lambda>d. yield_paper (tables c) s (Some d)) ds
          in (out, c\<lparr>aborted := list_ex (\<lambda>r. r = Inl ProgrammingError) out\<rparr>)))"

section \<open>Appending\<close>

text \<open>
  \<^verbatim>\<open>re.search('Key \((.*?)\)', error).group(1)\<close>: the leftmost place where \<^verbatim>\<open>Key (\<close> stands
  and a closing parenthesis follows on the same line (the dot matches no line break), and
  from there the text up to the first closing parenthesis. \<open>None\<close> stands for the
  exception raised by \<^verbatim>\<open>.group\<close> when nothing matches.
\<close>

fun lazy_group :: "string \<Rightarrow> string option" where
  "lazy_group [] = None"
| "lazy_group (ch # cs) =
    (if ch = CHR '')'' then Some []
     else if ch = CHR 0x0A then None
     else map_option ((#) ch) (lazy_group cs))"

fun re_search_Key :: "string \<Rightarrow> string option" where
  "re_search_Key [] = None"
| "re_search_Key (ch # cs) =
    (if take 5 (ch # cs) = ''Key ('' then
       (case lazy_group (drop 5 (ch # cs)) of
          Some g \<Rightarrow> Some g
        | None \<Rightarrow> re_search_Key cs)
     else re_search_Key cs)"

text \<open>
  One turn of the loop over the citations: the identifier it appends to \<^verbatim>\<open>cit_ids\<close>, or
  \<open>None\<close> when the turn ends with \<^verbatim>\<open>continue\<close>. Only \<^verbatim>\<open>IntegrityError\<close> is caught.
\<close>

definition insert_citation :: "conn \<Rightarrow> string \<Rightarrow> paper \<Rightarrow> (error + int option) \<times> conn" where
  "insert_citation c cname citation =
    (let vals = items_but_citations citation in
     case execute_insert c cname vals of
       (Inr i, c1) \<Rightarrow> (Inr (Some i), commit c1)
     | (Inl (IntegrityError msg), c1) \<Rightarrow>
         (let c2 = commit c1 in
          case re_search_Key msg of
            None \<Rightarrow> (Inr None, c2)
          | Some ckey \<Rightarrow>
              (case map_of vals ckey of
                 None \<Rightarrow> (Inl (KeyError ckey), c2)
               | Some cval \<Rightarrow>
                   (case execute_select_id_where c2 cname ckey cval of
                      (Inl e, c3) \<Rightarrow> (Inl e, c3)
                    | (Inr None, c3) \<Rightarrow> (Inl TypeError, c3)
                    | (Inr (Some i), c3) \<Rightarrow> (Inr (Some i), c3))))
     | (Inl e, c1) \<Rightarrow> (Inl e, c1))"

fun insert_citations ::
  "conn \<Rightarrow> string \<Rightarrow> paper list \<Rightarrow> int list \<Rightarrow> (error + int list) \<times> conn" where
  "insert_citations c cname [] cit_ids = (Inr cit_ids, c)"
| "insert_citations c cname (citation # rest) cit_ids =
    (case insert_citation c cname citation of
       (Inl e, c') \<Rightarrow> (Inl e, c')
     | (Inr None, c') \<Rightarrow> insert_citations c' cname rest cit_ids
     | (Inr (Some i), c') \<Rightarrow> insert_citations c' cname rest (cit_ids @ [i]))"

text \<open>The first half of \<^verbatim>\<open>append\<close>: \<^verbatim>\<open>cit_ids\<close>, which is \<^verbatim>\<open>None\<close> for a Paper without citations.\<close>

definition citation_phase :: "store \<Rightarrow> conn \<Rightarrow> paper \<Rightarrow> (error + int list option) \<times> conn" where
  "citation_phase s c obj =
    (case citations obj of
       None \<Rightarrow> (Inr None, c)
     | Some cs \<Rightarrow>
         (case insert_citations c (name s @ ''_citations'') cs [] of
            (Inl e, c') \<Rightarrow> (Inl e, c')
          | (Inr ids, c') \<Rightarrow> (Inr (Some ids), c')))"

text \<open>The values of the insert into the table of the Papers.\<close>

definition paper_vals :: "paper \<Rightarrow> int list option \<Rightarrow> (string \<times> val) list" where
  "paper_vals obj cit_ids =
    items_but_citations obj @
    [(''citations'', case cit_ids of None \<Rightarrow> Null | Some ids \<Rightarrow> Ints ids)]"

text \<open>
  \<^verbatim>\<open>append(obj, complain)\<close>: the outcome, the store and the connection after the call.
\<close>

definition append :: "store \<Rightarrow> conn \<Rightarrow> paper \<Rightarrow> bool \<Rightarrow> (error + unit) \<times> store \<times> conn" where
  "append s c obj complain =
    (case citation_phase s c obj of
       (Inl e, c1) \<Rightarrow> (Inl e, s, c1)
     | (Inr cit_ids, c1) \<Rightarrow>
         (case execute_insert c1 (name s) (paper_vals obj cit_ids) of
            (Inr i, c2) \<Rightarrow> (Inr (), s\<lparr>rowIds := rowIds s @ [i]\<rparr>, commit c2)
          | (Inl (IntegrityError msg), c2) \<Rightarrow>
              if complain then (Inl (ValueError (''Paper already exists: '' @ msg)), s, commit c2)
              else (Inr (), s, c2)
          | (Inl e, c2) \<Rightarrow> (Inl e, s, c2)))"

text \<open>
  \<^verbatim>\<open>__iadd__\<close>: the argument is any Python object; what the code asks of it is whether its
  type is \<^verbatim>\<open>Paper\<close>. The value returned is \<^verbatim>\<open>self\<close>.
\<close>

datatype pyobj = PaperObj paper | ListObj "paper list" | OtherObj

definition iadd :: "store \<Rightarrow> conn \<Rightarrow> pyobj \<Rightarrow> (error + store) \<times> store \<times> conn" where
  "iadd s c other =
    (case other of
       PaperObj p \<Rightarrow>
         (case append s c p True of
            (Inl e, s', c') \<Rightarrow> (Inl e, s', c')
          | (Inr u, s', c') \<Rightarrow> (Inr s', s', c'))
     | _ \<Rightarrow> (Inr s, s, c))"

section \<open>Notions used in the statements\<close>

text \<open>\<^verbatim>\<open>type(other) is Paper\<close>.\<close>

fun is_paper :: "pyobj \<Rightarrow> bool" where
  "is_paper (PaperObj p) = True"
| "is_paper _ = False"

text \<open>
  A connection to a database without tables, outside any failed transaction. In this
  and the other examples the server refuses every value it would have to convert and
  writes a new row after the rows of the table.
\<close>

definition empty_conn :: conn where
  "empty_conn = \<lparr>tables = [], aborted = False, convert = (\<lambda>u T v. None), place = (\<lambda>n t. length (rows t))\<rparr>"

text \<open>
  The name of a table is written into the statements unquoted, so it is an identifier.
  All that is used of this is that it holds no opening parenthesis.
\<close>

definition plain_name :: "string \<Rightarrow> bool" where
  "plain_name n = (CHR ''('' \<notin> set n)"

text \<open>
  A Paper whose fields but \<^verbatim>\<open>citations\<close> hold values of the types of their columns; and
  one whose citations are such Papers too.
\<close>

definition well_typed :: "paper \<Rightarrow> bool" where
  "well_typed p = list_all (\<lambda>k. fits (column_type k) (field p k)) scalar_fields"

definition all_typed :: "paper \<Rightarrow> bool" where
  "all_typed p =
    (well_typed p \<and> (case citations p of None \<Rightarrow> True | Some cs \<Rightarrow> list_all well_typed cs))"

text \<open>
  The row an insert writes for a well-typed Paper: its fields but \<^verbatim>\<open>citations\<close>, NULL
  elsewhere; and the cell of the column \<^verbatim>\<open>citations\<close> for a list of identifiers.
\<close>

definition scalar_row :: "(string \<Rightarrow> val) \<Rightarrow> string \<Rightarrow> val" where
  "scalar_row f k = (if k \<in> set scalar_fields then f k else Null)"

definition cit_cell :: "int list option \<Rightarrow> val" where
  "cit_cell cit_ids = (case cit_ids of None \<Rightarrow> Null | Some ids \<Rightarrow> Ints ids)"

definition paper_row :: "paper \<Rightarrow> int list option \<Rightarrow> string \<Rightarrow> val" where
  "paper_row obj cit_ids = (scalar_row (field obj))(''citations'' := cit_cell cit_ids)"

text \<open>
  The unique columns on which a new row with the values \<open>f\<close> meets a row of \<open>rs\<close>, and
  whether it meets a given row on one of them.
\<close>

definition clash_cols :: "row list \<Rightarrow> (string \<Rightarrow> val) \<Rightarrow> string list" where
  "clash_cols rs f = filter (\<lambda>k. f k \<noteq> Null \<and> list_ex (\<lambda>r. rvals r k = f k) rs) unique_cols"

definition clash :: "(string \<Rightarrow> val) \<Rightarrow> row \<Rightarrow> bool" where
  "clash f r = list_ex (\<lambda>k. f k \<noteq> Null \<and> rvals r k = f k) unique_cols"

text \<open>
  The state of a table that only inserts have written: the sequence is within its range,
  the identifiers are positive and do not exceed what the sequence has issued, and no
  identifier stands twice.
\<close>

definition bounded :: "table \<Rightarrow> bool" where
  "bounded t =
    (0 \<le> serial t \<and> serial t \<le> 2147483647 \<and>
     list_all (\<lambda>r. 0 < rid r \<and> rid r \<le> serial t) (rows t))"

definition ids_ok :: "table \<Rightarrow> bool" where
  "ids_ok t = (bounded t \<and> distinct (map rid (rows t)))"

text \<open>
  The effect of one turn of the citation loop, and of the whole loop, on the citation
  table alone, for well-typed citations and while the sequence lasts: the identifier
  gained and the table left, \<open>pl\<close> being the server's choice of the place of a new row. A
  citation that meets no row on a unique column is written as a new row; one that meets a
  row reuses the identifier of the first row that holds its value in the first column
  they share, and only the sequence moves. (The last case of \<open>dedup_step\<close> does not
  arise: the column was found because a row holds the value.) The lemmas
  \<open>insert_citation_step\<close> and \<open>insert_citations_steps\<close> show that the code computes these
  functions.
\<close>

definition dedup_step :: "(table \<Rightarrow> nat) \<Rightarrow> table \<Rightarrow> paper \<Rightarrow> int \<times> table" where
  "dedup_step pl t x =
    (case clash_cols (rows t) (scalar_row (field x)) of
       [] \<Rightarrow>
         (serial t + 1,
          \<lparr>rows = put (pl t) \<lparr>rid = serial t + 1, rvals = scalar_row (field x)\<rparr> (rows t),
           serial = serial t + 1\<rparr>)
     | k # ks \<Rightarrow>
         (case find (\<lambda>r. rvals r k = field x k) (rows t) of
            Some r \<Rightarrow> (rid r, t\<lparr>serial := serial t + 1\<rparr>)
          | None \<Rightarrow> (serial t + 1, t\<lparr>serial := serial t + 1\<rparr>)))"

fun dedup_steps :: "(table \<Rightarrow> nat) \<Rightarrow> table \<Rightarrow> paper list \<Rightarrow> int list \<times> table" where
  "dedup_steps pl t [] = ([], t)"
| "dedup_steps pl t (x # xs) =
    (case dedup_step pl t x of
       (i, t1) \<Rightarrow> (case dedup_steps pl t1 xs of (ids, t2) \<Rightarrow> (i # ids, t2)))"

text \<open>
  The outcome of the first half of \<^verbatim>\<open>append\<close> on the citation table, in the same
  conditions: \<^verbatim>\<open>cit_ids\<close> and the table left.
\<close>

definition cit_result :: "(table \<Rightarrow> nat) \<Rightarrow> table \<Rightarrow> paper \<Rightarrow> int list option \<times> table" where
  "cit_result pl tc obj =
    (case citations obj of
       None \<Rightarrow> (None, tc)
     | Some cs \<Rightarrow> (Some (fst (dedup_steps pl tc cs)), snd (dedup_steps pl tc cs)))"

text \<open>The sequence of the citation table lasts for the citations of a Paper.\<close>

definition room :: "table \<Rightarrow> paper \<Rightarrow> bool" where
  "room tc obj =
    (case citations obj of
       None \<Rightarrow> True
     | Some cs \<Rightarrow> serial tc + int (length cs) \<le> 2147483647)"

text \<open>
  A small database for the examples: the table \<^verbatim>\<open>t\<close> holds one Paper with a DOI and no
  citations, the table \<^verbatim>\<open>t_citations\<close> is empty, and \<open>demo_store\<close> is the store attached
  to \<^verbatim>\<open>t\<close>.
\<close>

definition paper_a :: paper where
  "paper_a = Paper ((\<lambda>k. Null)(''doi'' := Text ''10.1/a'', ''atitle'' := Text ''A'')) None"

definition demo_conn :: conn where
  "demo_conn =
    \<lparr>tables = [(''t'', \<lparr>rows = [\<lparr>rid = 1, rvals = paper_row paper_a None\<rparr>], serial = 1\<rparr>),
               (''t_citations'', \<lparr>rows = [], serial = 0\<rparr>)],
     aborted = False, convert = (\<lambda>u T v. None), place = (\<lambda>n t. length (rows t))\<rparr>"

definition demo_store :: store where
  "demo_store = \<lparr>rowIds = [1], name = ''t'', cols = columns\<rparr>"

text \<open>
  What the server answers when \<open>paper_a\<close> is inserted into \<^verbatim>\<open>t\<close> again, and the connection
  it leaves: the value 2 of the sequence is used up and the transaction is aborted.
\<close>

definition demo_msg :: string where
  "demo_msg = violation_message ''t'' ''doi'' (Text ''10.1/a'')"

definition demo_dup_conn :: conn where
  "demo_dup_conn =
    \<lparr>tables = [(''t'', \<lparr>rows = [\<lparr>rid = 1, rvals = paper_row paper_a None\<rparr>], serial = 2\<rparr>),
               (''t_citations'', \<lparr>rows = [], serial = 0\<rparr>)],
     aborted = True, convert = (\<lambda>u T v. None), place = (\<lambda>n t. length (rows t))\<rparr>"

text \<open>
  Two tables whose rows do not stand in the order of their identifiers: in the first the
  row with identifier 1 was rewritten by an \<^verbatim>\<open>UPDATE\<close>; in the second the rows were written
  where earlier rows had been deleted.
\<close>

definition unordered_conn :: conn where
  "unordered_conn =
    \<lparr>tables = [(''t'', \<lparr>rows = [\<lparr>rid = 2, rvals = (\<lambda>k. Null)\<rparr>, \<lparr>rid = 1, rvals = (\<lambda>k. Null)\<rparr>],
                     serial = 2\<rparr>),
               (''t_citations'', \<lparr>rows = [], serial = 0\<rparr>)],
     aborted = False, convert = (\<lambda>u T v. None), place = (\<lambda>n t. length (rows t))\<rparr>"

definition shuffled_table :: table where
  "shuffled_table =
    \<lparr>rows = [\<lparr>rid = 3, rvals = (\<lambda>k. Null)\<rparr>, \<lparr>rid = 1, rvals = paper_row paper_a None\<rparr>,
             \<lparr>rid = 2, rvals = (\<lambda>k. Null)\<rparr>],
     serial = 3\<rparr>"

definition shuffled_conn :: conn where
  "shuffled_conn =
    \<lparr>tables = [(''t'', shuffled_table), (''t_citations'', \<lparr>rows = [], serial = 0\<rparr>)],
     aborted = False, convert = (\<lambda>u T v. None), place = (\<lambda>n t. length (rows t))\<rparr>"

text \<open>
  The state of the two tables of a store that only \<^verbatim>\<open>append\<close> has written: both are as
  inserts leave them; no row of the citation table has citations of its own; and every
  identifier in the \<^verbatim>\<open>citations\<close> cell of a Paper's row is that of a row of the citation
  table.
\<close>

definition null_citations :: "table \<Rightarrow> bool" where
  "null_citations t = list_all (\<lambda>r. rvals r ''citations'' = Null) (rows t)"

definition has_id :: "table \<Rightarrow> int \<Rightarrow> bool" where
  "has_id t i = list_ex (\<lambda>r. rid r = i) (rows t)"

definition refs_ok :: "table \<Rightarrow> row \<Rightarrow> bool" where
  "refs_ok tc r =
    (case rvals r ''citations'' of
       Null \<Rightarrow> True
     | Ints ids \<Rightarrow> list_all (has_id tc) ids
     | _ \<Rightarrow> False)"

text \<open>
  What the citation loop keeps of the citation table, whatever its outcome: the table
  stays within its sequence and loses no row, its identifiers stay distinct, and its rows
  stay without citations.
\<close>

definition kept :: "table \<Rightarrow> table \<Rightarrow> bool" where
  "kept t t' =
    (bounded t' \<and> set (rows t) \<subseteq> set (rows t') \<and>
     (distinct (map rid (rows t)) \<longrightarrow> distinct (map rid (rows t'))) \<and>
     (null_citations t \<longrightarrow> null_citations t'))"

text \<open>The consistency of the two tables of a store.\<close>

definition tables_ok :: "conn \<Rightarrow> string \<Rightarrow> bool" where
  "tables_ok c n =
    (case map_of (tables c) n of
       None \<Rightarrow> False
     | Some tp \<Rightarrow>
         (case map_of (tables c) (n @ ''_citations'') of
            None \<Rightarrow> False
          | Some tc \<Rightarrow>
              ids_ok tp \<and> ids_ok tc \<and> null_citations tc \<and> list_all (refs_ok tc) (rows tp)))"

text \<open>
  What reading asks of the two tables, whoever wrote them: no identifier stands twice,
  no row of the citation table has citations of its own, and every identifier in the
  \<^verbatim>\<open>citations\<close> cell of a Paper's row is that of a row of the citation table.
\<close>

definition readable :: "conn \<Rightarrow> string \<Rightarrow> bool" where
  "readable c n =
    (case map_of (tables c) n of
       None \<Rightarrow> False
     | Some tp \<Rightarrow>
         (case map_of (tables c) (n @ ''_citations'') of
            None \<Rightarrow> False
          | Some tc \<Rightarrow>
              distinct (map rid (rows tp)) \<and> distinct (map rid (rows tc)) \<and>
              null_citations tc \<and> list_all (refs_ok tc) (rows tp)))"

text \<open>How deep the Papers nest inside the citations of a Paper.\<close>

fun depth :: "paper \<Rightarrow> nat" where
  "depth (Paper f None) = 0"
| "depth (Paper f (Some ps)) = Suc (fold max (map depth ps) 0)"

text \<open>
  A sequence of calls of \<^verbatim>\<open>append\<close>, each with its Paper and its \<^verbatim>\<open>complain\<close>; the caller
  goes on after an exception. \<open>appends\<close> is the store and the connection it leaves, and
  \<open>appended\<close> the Papers of the calls that added an identifier to the store, in their
  order.
\<close>

fun appends :: "store \<Rightarrow> conn \<Rightarrow> (paper \<times> bool) list \<Rightarrow> store \<times> conn" where
  "appends s c [] = (s, c)"
| "appends s c (pb # rest) =
    (case append s c (fst pb) (snd pb) of (r, s', c') \<Rightarrow> appends s' c' rest)"


text \<open>Two Papers agree on every field but \<^verbatim>\<open>citations\<close>.\<close>

definition same_scalars :: "paper \<Rightarrow> paper \<Rightarrow> bool" where
  "same_scalars p q = list_all (\<lambda>k. field p k = field q k) scalar_fields"

text \<open>Two Papers share a natural key: a unique column holds the same value in both.\<close>

definition shares_key :: "paper \<Rightarrow> paper \<Rightarrow> bool" where
  "shares_key x y = list_ex (\<lambda>k. field x k \<noteq> Null \<and> field x k = field y k) unique_cols"

text \<open>
  Two Papers have the same natural keys: every unique column holds the same value in
  both. The rows of a table that stand for a citation are those that hold one of its
  natural keys.
\<close>

definition same_keys :: "paper \<Rightarrow> paper \<Rightarrow> bool" where
  "same_keys x y = list_all (\<lambda>k. field x k = field y k) unique_cols"

definition stored_rows :: "paper \<Rightarrow> table \<Rightarrow> row list" where
  "stored_rows x t = filter (clash (field x)) (rows t)"

text \<open>
  The identifier \<open>i\<close> stands for the citation \<open>x\<close> in the citation table: it is that of a
  row that has the fields of \<open>x\<close>, or that holds one of the natural keys of \<open>x\<close> (the row
  the loop found in place of the one it could not write). A Paper read from the store
  matches the citation \<open>x\<close> when it has no citations and has the fields of \<open>x\<close> or shares a
  natural key with it.
\<close>

definition stands :: "table \<Rightarrow> int \<Rightarrow> paper \<Rightarrow> bool" where
  "stands t i x =
    list_ex (\<lambda>r. rid r = i \<and>
      (list_all (\<lambda>k. rvals r k = field x k) scalar_fields \<or> clash (field x) r)) (rows t)"





text \<open>
  More examples: a UUID, the store and the connection \<^verbatim>\<open>SQLPapers(conn, dbparams)\<close> leaves
  on a database without tables, and Papers with citations.
\<close>

definition demo_uuid :: string where
  "demo_uuid = ''4b1d9c52-7a60-4e0f-9a3e-2f6c8d1e5b77''"

definition fresh_store :: "string \<Rightarrow> store" where
  "fresh_store u = \<lparr>rowIds = [], name = fresh_name u, cols = columns\<rparr>"

definition fresh_conn :: "string \<Rightarrow> conn" where
  "fresh_conn u =
    \<lparr>tables = [(fresh_name u, \<lparr>rows = [], serial = 0\<rparr>),
               (fresh_name u @ ''_citations'', \<lparr>rows = [], serial = 0\<rparr>)],
     aborted = False, convert = (\<lambda>u T v. None), place = (\<lambda>n t. length (rows t))\<rparr>"

definition paper_b :: paper where
  "paper_b = Paper ((\<lambda>k. Null)(''doi'' := Text ''10.1/b'', ''atitle'' := Text ''B'')) None"

definition paper_d :: paper where
  "paper_d = Paper ((\<lambda>k. Null)(''pmid'' := Text ''77'', ''atitle'' := Text ''D'')) None"

definition paper_c :: paper where
  "paper_c = Paper ((\<lambda>k. Null)(''doi'' := Text ''10.1/c'')) (Some [paper_b])"

definition paper_e :: paper where
  "paper_e = Paper ((\<lambda>k. Null)(''doi'' := Text ''10.1/e'')) (Some [paper_b, paper_d])"

text \<open>
  The tables after \<open>paper_c\<close> and then \<open>paper_e\<close> were appended to the fresh store of
  \<open>demo_uuid\<close>: the second insert of \<open>paper_b\<close> used up the value 2 of the sequence.
\<close>

definition demo_citations1 :: table where
  "demo_citations1 = \<lparr>rows = [\<lparr>rid = 1, rvals = scalar_row (field paper_b)\<rparr>], serial = 1\<rparr>"

definition demo_papers1 :: table where
  "demo_papers1 = \<lparr>rows = [\<lparr>rid = 1, rvals = paper_row paper_c (Some [1])\<rparr>], serial = 1\<rparr>"

definition demo_citations2 :: table where
  "demo_citations2 =
    \<lparr>rows = [\<lparr>rid = 1, rvals = scalar_row (field paper_b)\<rparr>,
             \<lparr>rid = 3, rvals = scalar_row (field paper_d)\<rparr>], serial = 3\<rparr>"

definition demo_papers2 :: table where
  "demo_papers2 =
    \<lparr>rows = [\<lparr>rid = 1, rvals = paper_row paper_c (Some [1])\<rparr>,
             \<lparr>rid = 2, rvals = paper_row paper_e (Some [1, 3])\<rparr>], serial = 2\<rparr>"

definition demo_conn1 :: conn where
  "demo_conn1 =
    \<lparr>tables = [(fresh_name demo_uuid, demo_papers1),
               (fresh_name demo_uuid @ ''_citations'', demo_citations1)],
     aborted = False, convert = (\<lambda>u T v. None), place = (\<lambda>n t. length (rows t))\<rparr>"

definition demo_conn2 :: conn where
  "demo_conn2 =
    \<lparr>tables = [(fresh_name demo_uuid, demo_papers2),
               (fresh_name demo_uuid @ ''_citations'', demo_citations2)],
     aborted = False, convert = (\<lambda>u T v. None), place = (\<lambda>n t. length (rows t))\<rparr>"

text \<open>The tables after \<open>paper_c\<close> and then \<open>paper_a\<close> were appended.\<close>

definition demo_papers3 :: table where
  "demo_papers3 =
    \<lparr>rows = [\<lparr>rid = 1, rvals = paper_row paper_c (Some [1])\<rparr>,
             \<lparr>rid = 2, rvals = paper_row paper_a None\<rparr>], serial = 2\<rparr>"

definition demo_conn3 :: conn where
  "demo_conn3 =
    \<lparr>tables = [(fresh_name demo_uuid, demo_papers3),
               (fresh_name demo_uuid @ ''_citations'', demo_citations1)],
     aborted = False, convert = (\<lambda>u T v. None), place = (\<lambda>n t. length (rows t))\<rparr>"

definition demo_store1 :: store where
  "demo_store1 = \<lparr>rowIds = [1], name = fresh_name demo_uuid, cols = columns\<rparr>"

definition demo_store2 :: store where
  "demo_store2 = \<lparr>rowIds = [1, 2], name = fresh_name demo_uuid, cols = columns\<rparr>"

text \<open>
  A Paper that cites, under the DOI of \<open>paper_b\<close>, a Paper with another title; and what
  the store returns for it once \<open>paper_c\<close> has been appended.
\<close>

definition paper_b' :: paper where
  "paper_b' = Paper ((\<lambda>k. Null)(''doi'' := Text ''10.1/b'', ''atitle'' := Text ''Other title'')) None"

definition paper_x :: paper where
  "paper_x = Paper ((\<lambda>k. Null)(''doi'' := Text ''10.1/x'')) (Some [paper_b'])"







section \<open>The pattern finds the column in the server's message\<close>

lemma lazy_group_closing:
  "CHR '')'' \<notin> set g \<Longrightarrow> CHR 0x0A \<notin> set g \<Longrightarrow> lazy_group (g @ CHR '')'' # rest) = Some g"
  by (induction g) auto

lemma no_match_before:
  assumes "CHR ''('' \<notin> set (ch # pre)"
  shows "take 5 (ch # pre @ ''Key ('' @ rest) \<noteq> ''Key (''"
proof -
  consider "pre = []" | a where "pre = [a]" | a b where "pre = [a, b]"
    | a b d where "pre = [a, b, d]" | a b d e pre' where "pre = a # b # d # e # pre'"
    by (cases pre; cases "tl pre"; cases "tl (tl pre)"; cases "tl (tl (tl pre))") auto
  then show ?thesis
    using assms by cases auto
qed

lemma re_search_Key_found:
  assumes "CHR ''('' \<notin> set pre" and "CHR '')'' \<notin> set g" and "CHR 0x0A \<notin> set g"
  shows "re_search_Key (pre @ ''Key ('' @ g @ CHR '')'' # rest) = Some g"
  using assms(1)
proof (induction pre)
  case Nil
  have "lazy_group (g @ CHR '')'' # rest) = Some g"
    using assms(2,3) by (rule lazy_group_closing)
  then show ?case by simp
next
  case (Cons ch pre)
  let ?s = "pre @ ''Key ('' @ g @ CHR '')'' # rest"
  have neg: "take 5 (ch # ?s) \<noteq> ''Key (''"
    using Cons.prems by (rule no_match_before)
  have "re_search_Key (ch # ?s) = re_search_Key ?s"
    by (subst re_search_Key.simps) (simp only: neg if_False)
  moreover have "re_search_Key ?s = Some g"
    using Cons by simp
  ultimately show ?case by (simp only: append_Cons)
qed

lemma re_search_Key_violation:
  assumes "plain_name tname" and "col \<in> set unique_cols"
  shows "re_search_Key (violation_message tname col v) = Some col"
proof -
  let ?pre = "''duplicate key value violates unique constraint '' @ [CHR 0x22] @ tname @
    (''_'' @ col @ ''_key'') @ [CHR 0x22, CHR 0x0A] @ ''DETAIL:  ''"
  have col: "CHR ''('' \<notin> set col" "CHR '')'' \<notin> set col" "CHR 0x0A \<notin> set col" "col \<noteq> ''id''"
    using assms(2) by (auto simp: unique_cols_def)
  have "violation_message tname col v =
      ?pre @ ''Key ('' @ col @ CHR '')'' # (''=('' @ show_val v @ '') already exists.'' @ [CHR 0x0A])"
    using col(4) by (simp add: violation_message_def)
  moreover have "CHR ''('' \<notin> set ?pre" using assms(1) col(1) by (simp add: plain_name_def)
  ultimately show ?thesis
    using re_search_Key_found [OF _ col(2,3)] by metis
qed


section \<open>Values of the types of their columns\<close>

lemma commit_clean: "\<not> aborted c \<Longrightarrow> c\<lparr>aborted := False\<rparr> = c"
  by (cases c) simp

lemma unique_cols_scalar: "k \<in> set unique_cols \<Longrightarrow> k \<in> set scalar_fields"
  by (auto simp: unique_cols_def scalar_fields_def columns_def)

lemma unique_cols_columns: "k \<in> set unique_cols \<Longrightarrow> k \<in> set columns \<and> k \<noteq> ''id'' \<and> k \<noteq> ''citations''"
  by (auto simp: unique_cols_def columns_def)

lemma citations_not_scalar: "''citations'' \<notin> set scalar_fields"
  by (simp add: scalar_fields_def columns_def)

lemma map_of_items: "map_of (items_but_citations x) k = (if k \<in> set scalar_fields then Some (field x k) else None)"
  by (simp add: items_but_citations_def map_of_map_restrict restrict_map_def)

lemma row_of_items: "row_of (items_but_citations x) = scalar_row (field x)"
  by (rule ext) (simp add: row_of_def map_of_items scalar_row_def)

lemma row_of_paper_vals: "row_of (paper_vals x ids) = paper_row x ids"
  by (rule ext)
     (simp add: row_of_def paper_vals_def map_of_items scalar_row_def map_add_def cit_cell_def
        citations_not_scalar paper_row_def)

lemma keys_items: "list_all (\<lambda>kv. fst kv \<in> set (tl columns)) (items_but_citations x)"
  by (simp add: items_but_citations_def list_all_iff scalar_fields_def columns_def)

lemma keys_paper_vals: "list_all (\<lambda>kv. fst kv \<in> set (tl columns)) (paper_vals x ids)"
  using keys_items [of x] by (simp add: paper_vals_def columns_def)

lemma server_value_fits: "fits T v \<Longrightarrow> server_value c u T v = Inr v"
  by (simp add: server_value_def)

lemma server_value_error: "server_value c u T v = Inl e \<Longrightarrow> e = DatabaseError"
  by (cases "known_case u T v"; cases u; cases T; cases v)
     (auto simp: server_value_def split: if_splits option.splits)

lemma read_vals_error: "read_vals c vals = Inl e \<Longrightarrow> e = DatabaseError"
  by (induction vals arbitrary: e) (auto split: sum.splits dest: server_value_error)

lemma read_vals_keys: "read_vals c vals = Inr stored \<Longrightarrow> map fst stored = map fst vals"
  by (induction vals arbitrary: stored) (auto split: sum.splits)

lemma read_vals_typed:
  "list_all (\<lambda>kv. fits (column_type (fst kv)) (snd kv)) vals \<Longrightarrow> read_vals c vals = Inr vals"
  by (induction vals) (simp_all add: server_value_fits)

lemma read_vals_last:
  assumes "read_vals c (vals @ [(k, v)]) = Inr stored" and "k \<notin> fst ` set vals"
    and "fits (column_type k) v"
  shows "map_of stored k = Some v"
  using assms(1,2)
proof (induction vals arbitrary: stored)
  case Nil
  then show ?case using assms(3) by (auto simp: server_value_fits)
next
  case (Cons kv vals)
  then show ?case by (auto split: sum.splits)
qed

lemma items_typed:
  "well_typed x \<Longrightarrow> list_all (\<lambda>kv. fits (column_type (fst kv)) (snd kv)) (items_but_citations x)"
  by (simp add: well_typed_def items_but_citations_def list_all_iff)

lemma column_type_citations: "column_type ''citations'' = TIntegerArray"
  by (simp add: column_type_def)

lemma fits_cit_cell:
  "(case ids of None \<Rightarrow> True | Some l \<Rightarrow> list_all int4 l) \<Longrightarrow> fits TIntegerArray (cit_cell ids)"
  by (cases ids) (simp_all add: cit_cell_def)

lemma paper_vals_cell: "paper_vals obj ids = items_but_citations obj @ [(''citations'', cit_cell ids)]"
  by (simp add: paper_vals_def cit_cell_def)

lemma read_items_typed: "well_typed x \<Longrightarrow> read_vals c (items_but_citations x) = Inr (items_but_citations x)"
  by (simp add: read_vals_typed items_typed)

lemma read_paper_vals_typed:
  assumes "well_typed obj" and "case ids of None \<Rightarrow> True | Some l \<Rightarrow> list_all int4 l"
  shows "read_vals c (paper_vals obj ids) = Inr (paper_vals obj ids)"
  using items_typed [OF assms(1)] fits_cit_cell [OF assms(2)]
  by (intro read_vals_typed) (simp add: paper_vals_cell column_type_citations)

lemma read_paper_vals_citations:
  assumes "read_vals c (paper_vals obj ids) = Inr stored"
    and "case ids of None \<Rightarrow> True | Some l \<Rightarrow> list_all int4 l"
  shows "row_of stored ''citations'' = cit_cell ids"
proof -
  have "''citations'' \<notin> fst ` set (items_but_citations obj)"
    using citations_not_scalar by (auto simp: items_but_citations_def)
  from read_vals_last [OF assms(1) [unfolded paper_vals_cell] this]
  show ?thesis
    using fits_cit_cell [OF assms(2)] by (simp add: row_of_def column_type_citations)
qed

lemma read_items_citations:
  assumes "read_vals c (items_but_citations x) = Inr stored"
  shows "row_of stored ''citations'' = Null"
proof -
  have "''citations'' \<notin> set (map fst stored)"
    using read_vals_keys [OF assms] citations_not_scalar by (auto simp: items_but_citations_def)
  then have "map_of stored ''citations'' = None"
    by (simp add: map_of_eq_None_iff)
  then show ?thesis by (simp add: row_of_def)
qed

section \<open>The place of a new row\<close>

lemma set_put: "set (put k x xs) = insert x (set xs)"
proof -
  have "set (take k xs) \<union> set (drop k xs) = set xs"
    by (metis append_take_drop_id set_append)
  then show ?thesis by (auto simp: put_def)
qed

lemma put_length: "put (length xs) x xs = xs @ [x]"
  by (simp add: put_def)

lemma put_Nil: "put k x [] = [x]"
  by (simp add: put_def)

lemma map_put: "map f (put k x xs) = put k (f x) (map f xs)"
  by (simp add: put_def take_map drop_map)

lemma list_all_put: "list_all P (put k x xs) = (P x \<and> list_all P xs)"
  by (auto simp: list_all_iff set_put)

lemma distinct_put: "distinct (put k x xs) = (x \<notin> set xs \<and> distinct xs)"
proof -
  have "distinct (take k xs @ drop k xs) = distinct xs" by simp
  moreover have "set (take k xs) \<union> set (drop k xs) = set xs"
    by (metis append_take_drop_id set_append)
  ultimately show ?thesis
    unfolding put_def distinct_append by auto
qed

lemma filter_put_other: "\<not> P x \<Longrightarrow> filter P (put k x xs) = filter P xs"
proof -
  assume "\<not> P x"
  moreover have "filter P (take k xs) @ filter P (drop k xs) = filter P xs"
    by (metis filter_append append_take_drop_id)
  ultimately show ?thesis by (simp add: put_def)
qed

lemma filter_put_first: "P x \<Longrightarrow> filter P xs = [] \<Longrightarrow> filter P (put k x xs) = [x]"
proof -
  assume p: "P x" and e: "filter P xs = []"
  have "filter P (take k xs) = []" "filter P (drop k xs) = []"
    using e by (auto simp: filter_empty_conv dest: in_set_takeD in_set_dropD)
  then show ?thesis using p by (simp add: put_def)
qed

section \<open>Inserting a row\<close>

lemma find_conflict_fresh:
  assumes "list_all (\<lambda>r. rid r \<le> m) rs"
  shows "find_conflict rs (m + 1) f = (case clash_cols rs f of [] \<Rightarrow> None | k # ks \<Rightarrow> Some (k, f k))"
proof -
  have "\<not> list_ex (\<lambda>r. rid r = m + 1) rs"
    using assms by (auto simp: list_all_iff list_ex_iff)
  then show ?thesis by (simp add: find_conflict_def clash_cols_def)
qed

lemma bounded_rows: "bounded t \<Longrightarrow> list_all (\<lambda>r. rid r \<le> serial t) (rows t)"
  by (auto simp: bounded_def list_all_iff)

lemma clash_cols_Nil: "clash_cols rs f = [] \<longleftrightarrow> (\<forall>r\<in>set rs. \<not> clash f r)"
  by (auto simp: clash_cols_def clash_def filter_empty_conv list_ex_iff)

lemma clash_cols_Cons:
  assumes "clash_cols rs f = k # ks"
  shows "k \<in> set unique_cols" and "f k \<noteq> Null" and "\<exists>r\<in>set rs. rvals r k = f k"
proof -
  have "k \<in> set (clash_cols rs f)" using assms by simp
  then show "k \<in> set unique_cols" and "f k \<noteq> Null" and "\<exists>r\<in>set rs. rvals r k = f k"
    by (auto simp: clash_cols_def list_ex_iff)
qed

lemma execute_insert_aborted: "aborted c \<Longrightarrow> execute_insert c tn vals = (Inl InternalError, c)"
  by (simp add: execute_insert_def)

lemma aborted_idem: "aborted c \<Longrightarrow> c\<lparr>aborted := True\<rparr> = c"
  by (cases c) simp

lemma execute_insert_cases:
  assumes "map_of (tables c) tn = Some t" and "bounded t"
  obtains
    (refused) e where "execute_insert c tn vals = (Inl e, c\<lparr>aborted := True\<rparr>)"
      "\<forall>m. e \<noteq> IntegrityError m"
      "aborted c \<or> \<not> list_all (\<lambda>kv. fst kv \<in> set (tl columns)) vals \<or>
       read_vals c vals = Inl DatabaseError \<or> 2147483647 \<le> serial t"
  | (violated) stored k ks where "\<not> aborted c" "read_vals c vals = Inr stored"
      "serial t < 2147483647" "clash_cols (rows t) (row_of stored) = k # ks"
      "execute_insert c tn vals =
        (Inl (IntegrityError (violation_message tn k (row_of stored k))),
         c\<lparr>tables := AList.update tn (t\<lparr>serial := serial t + 1\<rparr>) (tables c), aborted := True\<rparr>)"
  | (inserted) stored where "\<not> aborted c" "read_vals c vals = Inr stored"
      "serial t < 2147483647" "clash_cols (rows t) (row_of stored) = []"
      "execute_insert c tn vals =
        (Inr (serial t + 1),
         c\<lparr>tables := AList.update tn
            \<lparr>rows = put (place c tn t) \<lparr>rid = serial t + 1, rvals = row_of stored\<rparr> (rows t),
             serial = serial t + 1\<rparr> (tables c)\<rparr>)"
proof (cases "aborted c")
  case True
  then show ?thesis
    using refused [of InternalError] by (simp add: execute_insert_aborted aborted_idem)
next
  case na: False
  show ?thesis
  proof (cases "list_all (\<lambda>kv. fst kv \<in> set (tl columns)) vals")
    case False
    then show ?thesis
      using refused [of ProgrammingError] na assms(1) by (simp add: execute_insert_def)
  next
    case keys: True
    show ?thesis
    proof (cases "read_vals c vals")
      case (Inl e)
      then have "e = DatabaseError" by (rule read_vals_error)
      then show ?thesis
        using refused [of DatabaseError] na assms(1) keys Inl by (simp add: execute_insert_def)
    next
      case (Inr stored)
      show ?thesis
      proof (cases "serial t < 2147483647")
        case False
        then show ?thesis
          using refused [of DatabaseError] na assms(1) keys Inr by (simp add: execute_insert_def)
      next
        case room: True
        note fc = find_conflict_fresh [OF bounded_rows [OF assms(2)], of "row_of stored"]
        show ?thesis
        proof (cases "clash_cols (rows t) (row_of stored)")
          case Nil
          then show ?thesis
            using inserted [of stored] na assms(1) keys Inr room fc
            by (simp add: execute_insert_def Let_def)
        next
          case (Cons k ks)
          then show ?thesis
            using violated [of stored k ks] na assms(1) keys Inr room fc
            by (simp add: execute_insert_def Let_def)
        qed
      qed
    qed
  qed
qed

lemma execute_insert_failed: "execute_insert c tn vals = (Inl e, c') \<Longrightarrow> aborted c'"
  by (auto simp: execute_insert_def Let_def
      split: if_splits option.splits sum.splits prod.splits)

lemma find_first:
  assumes "\<exists>r\<in>set rs. P r"
  shows "\<exists>r. find P rs = Some r \<and> r \<in> set rs \<and> P r"
  using assms by (cases "find P rs") (auto simp: find_None_iff find_Some_iff)

lemma find_SomeD: "find P xs = Some x \<Longrightarrow> x \<in> set xs \<and> P x"
  by (auto simp: find_Some_iff)

section \<open>One turn of the citation loop\<close>

lemma server_value_conn [simp]:
  "server_value (c\<lparr>tables := db\<rparr>) = server_value c"
  "server_value (c\<lparr>aborted := a\<rparr>) = server_value c"
  by (auto simp: fun_eq_iff server_value_def split: option.splits)

lemma read_vals_conn [simp]:
  "read_vals (c\<lparr>tables := db\<rparr>) vals = read_vals c vals"
  "read_vals (c\<lparr>aborted := a\<rparr>) vals = read_vals c vals"
  by (induction vals) (simp_all split: sum.splits)

lemma insert_citation_cases:
  assumes "map_of (tables c) cn = Some t" and "bounded t" and "plain_name cn"
  obtains
    (raised) e c' where "insert_citation c cn x = (Inl e, c')"
      "tables c' = tables c \<or>
       serial t < 2147483647 \<and> tables c' = AList.update cn (t\<lparr>serial := serial t + 1\<rparr>) (tables c)"
      "aborted c \<or> read_vals c (items_but_citations x) = Inl DatabaseError \<or>
       2147483647 \<le> serial t \<or>
       (\<exists>stored k ks. read_vals c (items_but_citations x) = Inr stored \<and>
          clash_cols (rows t) (row_of stored) = k # ks \<and>
          (case server_value c Compared (column_type k) (field x k) of
             Inl e' \<Rightarrow> True
           | Inr v \<Rightarrow> find (\<lambda>r. v \<noteq> Null \<and> cell r k = v) (rows t) = None))"
  | (new) stored where "\<not> aborted c" "read_vals c (items_but_citations x) = Inr stored"
      "serial t < 2147483647" "clash_cols (rows t) (row_of stored) = []"
      "insert_citation c cn x =
        (Inr (Some (serial t + 1)),
         c\<lparr>tables := AList.update cn
            \<lparr>rows = put (place c cn t) \<lparr>rid = serial t + 1, rvals = row_of stored\<rparr> (rows t),
             serial = serial t + 1\<rparr> (tables c)\<rparr>)"
  | (found) stored k ks v r where "\<not> aborted c"
      "read_vals c (items_but_citations x) = Inr stored"
      "serial t < 2147483647" "clash_cols (rows t) (row_of stored) = k # ks"
      "server_value c Compared (column_type k) (field x k) = Inr v"
      "find (\<lambda>r. v \<noteq> Null \<and> cell r k = v) (rows t) = Some r"
      "insert_citation c cn x =
        (Inr (Some (rid r)),
         c\<lparr>tables := AList.update cn (t\<lparr>serial := serial t + 1\<rparr>) (tables c)\<rparr>)"
proof (rule execute_insert_cases [OF assms(1,2), of "items_but_citations x"])
  fix e
  assume a: "execute_insert c cn (items_but_citations x) = (Inl e, c\<lparr>aborted := True\<rparr>)"
    "\<forall>m. e \<noteq> IntegrityError m"
    "aborted c \<or> \<not> list_all (\<lambda>kv. fst kv \<in> set (tl columns)) (items_but_citations x) \<or>
       read_vals c (items_but_citations x) = Inl DatabaseError \<or> 2147483647 \<le> serial t"
  have "insert_citation c cn x = (Inl e, c\<lparr>aborted := True\<rparr>)"
    using a(1,2) by (cases e) (simp_all add: insert_citation_def Let_def)
  moreover have "aborted c \<or> read_vals c (items_but_citations x) = Inl DatabaseError \<or>
       2147483647 \<le> serial t"
    using a(3) keys_items [of x] by simp
  ultimately show thesis
    using raised [of e "c\<lparr>aborted := True\<rparr>"] by auto
next
  fix stored
  assume a: "\<not> aborted c" "read_vals c (items_but_citations x) = Inr stored"
    "serial t < 2147483647" "clash_cols (rows t) (row_of stored) = []"
    "execute_insert c cn (items_but_citations x) =
        (Inr (serial t + 1),
         c\<lparr>tables := AList.update cn
            \<lparr>rows = put (place c cn t) \<lparr>rid = serial t + 1, rvals = row_of stored\<rparr> (rows t),
             serial = serial t + 1\<rparr> (tables c)\<rparr>)"
  have "insert_citation c cn x =
        (Inr (Some (serial t + 1)),
         c\<lparr>tables := AList.update cn
            \<lparr>rows = put (place c cn t) \<lparr>rid = serial t + 1, rvals = row_of stored\<rparr> (rows t),
             serial = serial t + 1\<rparr> (tables c)\<rparr>)"
    using a(1) by (simp add: insert_citation_def Let_def a(5) commit_def commit_clean)
  then show thesis using new [OF a(1-4)] by simp
next
  fix stored k ks
  assume a: "\<not> aborted c" "read_vals c (items_but_citations x) = Inr stored"
    "serial t < 2147483647" "clash_cols (rows t) (row_of stored) = k # ks"
    "execute_insert c cn (items_but_citations x) =
        (Inl (IntegrityError (violation_message cn k (row_of stored k))),
         c\<lparr>tables := AList.update cn (t\<lparr>serial := serial t + 1\<rparr>) (tables c), aborted := True\<rparr>)"
  note k = clash_cols_Cons [OF a(4)]
  have ks: "k \<in> set scalar_fields" "k \<in> set columns" "k \<noteq> ''id''"
    using k(1) unique_cols_scalar unique_cols_columns by auto
  let ?c1 = "c\<lparr>tables := AList.update cn (t\<lparr>serial := serial t + 1\<rparr>) (tables c), aborted := True\<rparr>"
  let ?c2 = "c\<lparr>tables := AList.update cn (t\<lparr>serial := serial t + 1\<rparr>) (tables c)\<rparr>"
  have c2: "commit ?c1 = ?c2"
    using a(1) by (cases c) (simp add: commit_def)
  have ic: "insert_citation c cn x =
      (case execute_select_id_where ?c2 cn k (field x k) of
         (Inl e, c3) \<Rightarrow> (Inl e, c3)
       | (Inr None, c3) \<Rightarrow> (Inl TypeError, c3)
       | (Inr (Some i), c3) \<Rightarrow> (Inr (Some i), c3))"
    by (simp add: insert_citation_def Let_def a(5) c2
        re_search_Key_violation [OF assms(3) k(1)] map_of_items ks(1))
  have sel: "execute_select_id_where ?c2 cn k (field x k) =
      (case server_value c Compared (column_type k) (field x k) of
         Inl e \<Rightarrow> (Inl e, ?c2\<lparr>aborted := True\<rparr>)
       | Inr v \<Rightarrow> (Inr (map_option rid (find (\<lambda>r. v \<noteq> Null \<and> cell r k = v) (rows t))), ?c2))"
    using a(1) ks(2) by (simp add: execute_select_id_where_def update_conv' split: sum.splits)
  show thesis
  proof (cases "server_value c Compared (column_type k) (field x k)")
    case (Inl e)
    then have "insert_citation c cn x = (Inl e, ?c2\<lparr>aborted := True\<rparr>)"
      by (simp add: ic sel)
    then show thesis
      using raised [of e "?c2\<lparr>aborted := True\<rparr>"] a(2,3,4) Inl by auto
  next
    case (Inr v)
    show thesis
    proof (cases "find (\<lambda>r. v \<noteq> Null \<and> cell r k = v) (rows t)")
      case None
      then have "insert_citation c cn x = (Inl TypeError, ?c2)"
        by (simp add: ic sel Inr)
      then show thesis
        using raised [of TypeError ?c2] a(2,3,4) Inr None by auto
    next
      case (Some r)
      then have "insert_citation c cn x = (Inr (Some (rid r)), ?c2)"
        by (simp add: ic sel Inr)
      then show thesis using found [OF a(1-4) Inr Some] by simp
    qed
  qed
qed

lemma scalar_row_unique: "k \<in> set unique_cols \<Longrightarrow> scalar_row f k = f k"
  using unique_cols_scalar [of k] by (simp add: scalar_row_def)

lemma paper_row_unique: "k \<in> set unique_cols \<Longrightarrow> paper_row obj ids k = field obj k"
  using unique_cols_scalar [of k] unique_cols_columns [of k]
  by (simp add: paper_row_def scalar_row_def)

lemma clash_cols_paper_row: "clash_cols rs (paper_row obj ids) = clash_cols rs (field obj)"
  unfolding clash_cols_def by (rule filter_cong) (simp_all add: paper_row_unique)

lemma clash_cols_scalar_row: "clash_cols rs (scalar_row f) = clash_cols rs f"
  unfolding clash_cols_def by (rule filter_cong) (simp_all add: scalar_row_unique)

lemma fits_unique:
  assumes "well_typed x" and "k \<in> set unique_cols"
  shows "fits (column_type k) (field x k)"
  using assms unique_cols_scalar [OF assms(2)] by (simp add: well_typed_def list_all_iff)

text \<open>
  For a well-typed citation, outside an aborted transaction and while the sequence
  lasts, one turn of the loop computes \<open>dedup_step\<close>.
\<close>

lemma insert_citation_step:
  assumes "\<not> aborted c" and "map_of (tables c) cn = Some t" and "bounded t" and "plain_name cn"
    and "well_typed x" and "serial t < 2147483647"
  shows "insert_citation c cn x =
    (Inr (Some (fst (dedup_step (place c cn) t x))),
     c\<lparr>tables := AList.update cn (snd (dedup_step (place c cn) t x)) (tables c)\<rparr>)"
proof (rule insert_citation_cases [OF assms(2,3,4), of x])
  fix e c'
  assume "aborted c \<or> read_vals c (items_but_citations x) = Inl DatabaseError \<or>
       2147483647 \<le> serial t \<or>
       (\<exists>stored k ks. read_vals c (items_but_citations x) = Inr stored \<and>
          clash_cols (rows t) (row_of stored) = k # ks \<and>
          (case server_value c Compared (column_type k) (field x k) of
             Inl e' \<Rightarrow> True
           | Inr v \<Rightarrow> find (\<lambda>r. v \<noteq> Null \<and> cell r k = v) (rows t) = None))"
  then obtain k ks where k: "clash_cols (rows t) (scalar_row (field x)) = k # ks"
    and f: "case server_value c Compared (column_type k) (field x k) of
             Inl e' \<Rightarrow> True
           | Inr v \<Rightarrow> find (\<lambda>r. v \<noteq> Null \<and> cell r k = v) (rows t) = None"
    using assms(1,6) by (auto simp: read_items_typed [OF assms(5)] row_of_items)
  note kk = clash_cols_Cons [OF k]
  have v: "scalar_row (field x) k = field x k" "k \<noteq> ''id''"
    using kk(1) unique_cols_columns by (simp_all add: scalar_row_unique)
  have "find (\<lambda>r. field x k \<noteq> Null \<and> cell r k = field x k) (rows t) = None"
    using f by (simp add: server_value_fits [OF fits_unique [OF assms(5) kk(1)]])
  then have False
    using kk(2,3) v by (auto simp: find_None_iff cell_def)
  then show ?thesis ..
next
  fix stored
  assume a: "read_vals c (items_but_citations x) = Inr stored"
    "clash_cols (rows t) (row_of stored) = []"
    "insert_citation c cn x =
        (Inr (Some (serial t + 1)),
         c\<lparr>tables := AList.update cn
            \<lparr>rows = put (place c cn t) \<lparr>rid = serial t + 1, rvals = row_of stored\<rparr> (rows t),
             serial = serial t + 1\<rparr> (tables c)\<rparr>)"
  have st: "stored = items_but_citations x"
    using a(1) by (simp add: read_items_typed [OF assms(5)])
  show ?thesis
    using a(2,3) unfolding st row_of_items by (simp add: dedup_step_def)
next
  fix stored k ks v r
  assume a: "read_vals c (items_but_citations x) = Inr stored"
    "clash_cols (rows t) (row_of stored) = k # ks"
    "server_value c Compared (column_type k) (field x k) = Inr v"
    "find (\<lambda>r. v \<noteq> Null \<and> cell r k = v) (rows t) = Some r"
    "insert_citation c cn x =
        (Inr (Some (rid r)),
         c\<lparr>tables := AList.update cn (t\<lparr>serial := serial t + 1\<rparr>) (tables c)\<rparr>)"
  have st: "stored = items_but_citations x"
    using a(1) by (simp add: read_items_typed [OF assms(5)])
  note k = a(2) [unfolded st row_of_items]
  note kk = clash_cols_Cons [OF k]
  have v: "scalar_row (field x) k = field x k" "k \<noteq> ''id''"
    using kk(1) unique_cols_columns by (simp_all add: scalar_row_unique)
  have "v = field x k"
    using a(3) by (simp add: server_value_fits [OF fits_unique [OF assms(5) kk(1)]])
  then have "(\<lambda>r. v \<noteq> Null \<and> cell r k = v) = (\<lambda>r. rvals r k = field x k)"
    using kk(2) v by (auto simp: fun_eq_iff cell_def)
  then have "find (\<lambda>r. rvals r k = field x k) (rows t) = Some r"
    using a(4) by simp
  then show ?thesis
    using a(5) k by (simp add: dedup_step_def)
qed

section \<open>The citation loop computes the deduplication\<close>

lemma dedup_step_cases:
  obtains
    (new) "clash_cols (rows t) (field x) = []"
      "dedup_step pl t x = (serial t + 1,
         \<lparr>rows = put (pl t) \<lparr>rid = serial t + 1, rvals = scalar_row (field x)\<rparr> (rows t),
          serial = serial t + 1\<rparr>)"
  | (dup) k ks r where "clash_cols (rows t) (field x) = k # ks"
      "find (\<lambda>r. rvals r k = field x k) (rows t) = Some r"
      "dedup_step pl t x = (rid r, t\<lparr>serial := serial t + 1\<rparr>)"
proof (cases "clash_cols (rows t) (field x)")
  case Nil
  then show ?thesis using new by (simp add: dedup_step_def clash_cols_scalar_row)
next
  case (Cons k ks)
  note kk = clash_cols_Cons [OF Cons]
  obtain r where "find (\<lambda>r. rvals r k = field x k) (rows t) = Some r"
    using find_first [of "rows t" "\<lambda>r. rvals r k = field x k"] kk(3) by auto
  then show ?thesis using dup Cons by (simp add: dedup_step_def clash_cols_scalar_row)
qed

lemma serial_dedup_step: "serial (snd (dedup_step pl t x)) = serial t + 1"
  by (rule dedup_step_cases [where t = t and x = x and pl = pl]) simp_all

lemma bounded_dedup_step:
  assumes "bounded t" and "serial t < 2147483647"
  shows "bounded (snd (dedup_step pl t x))"
  by (rule dedup_step_cases [where t = t and x = x and pl = pl])
     (use assms in \<open>auto simp: bounded_def list_all_iff set_put\<close>)

lemma serial_dedup_steps: "serial (snd (dedup_steps pl t xs)) = serial t + int (length xs)"
proof (induction xs arbitrary: t)
  case Nil
  then show ?case by simp
next
  case (Cons x xs)
  obtain i t1 where s1: "dedup_step pl t x = (i, t1)" by (cases "dedup_step pl t x")
  obtain ids t2 where s2: "dedup_steps pl t1 xs = (ids, t2)" by (cases "dedup_steps pl t1 xs")
  have "serial t1 = serial t + 1" using serial_dedup_step [of pl t x] s1 by simp
  then show ?case using Cons.IH [of t1] s1 s2 by simp
qed

lemma bounded_dedup_steps:
  assumes "bounded t" and "serial t + int (length xs) \<le> 2147483647"
  shows "bounded (snd (dedup_steps pl t xs))"
  using assms
proof (induction xs arbitrary: t)
  case Nil
  then show ?case by simp
next
  case (Cons x xs)
  obtain i t1 where s1: "dedup_step pl t x = (i, t1)" by (cases "dedup_step pl t x")
  obtain ids t2 where s2: "dedup_steps pl t1 xs = (ids, t2)" by (cases "dedup_steps pl t1 xs")
  have t1: "bounded t1" "serial t1 = serial t + 1"
    using bounded_dedup_step [of t pl x] serial_dedup_step [of pl t x] Cons.prems s1 by simp_all
  then have "bounded (snd (dedup_steps pl t1 xs))"
    using Cons.prems(2) by (intro Cons.IH) simp_all
  then show ?case using s1 s2 by simp
qed

lemma insert_citations_steps:
  assumes "\<not> aborted c" and "map_of (tables c) cn = Some t" and "bounded t" and "plain_name cn"
    and "list_all well_typed xs" and "serial t + int (length xs) \<le> 2147483647"
  shows "insert_citations c cn xs acc =
    (Inr (acc @ fst (dedup_steps (place c cn) t xs)),
     c\<lparr>tables := AList.update cn (snd (dedup_steps (place c cn) t xs)) (tables c)\<rparr>)"
  using assms(1,2,3,5,6)
proof (induction xs arbitrary: c t acc)
  case Nil
  then show ?case by (simp add: update_triv)
next
  case (Cons x xs)
  let ?t1 = "snd (dedup_step (place c cn) t x)"
  let ?c1 = "c\<lparr>tables := AList.update cn ?t1 (tables c)\<rparr>"
  have room: "serial t < 2147483647" using Cons.prems(5) by simp
  have step: "insert_citation c cn x = (Inr (Some (fst (dedup_step (place c cn) t x))), ?c1)"
    using Cons.prems(1,2,3) assms(4) _ room by (rule insert_citation_step) (use Cons.prems(4) in simp)
  have c1: "\<not> aborted ?c1" "map_of (tables ?c1) cn = Some ?t1" "bounded ?t1"
    "list_all well_typed xs" "serial ?t1 + int (length xs) \<le> 2147483647"
    using Cons.prems room by (simp_all add: update_conv' bounded_dedup_step serial_dedup_step)
  show ?case
    by (simp add: step Cons.IH [OF c1] split: prod.splits)
qed

section \<open>What every turn of the loop keeps\<close>

lemma ids_ok_insert:
  assumes "ids_ok t" and "serial t < 2147483647"
  shows "ids_ok \<lparr>rows = put k \<lparr>rid = serial t + 1, rvals = f\<rparr> (rows t), serial = serial t + 1\<rparr>"
proof -
  have "serial t + 1 \<notin> rid ` set (rows t)"
    using assms(1) by (auto simp: ids_ok_def bounded_def list_all_iff)
  then show ?thesis
    using assms by (auto simp: ids_ok_def bounded_def list_all_iff set_put map_put distinct_put)
qed

lemma ids_ok_skip: "ids_ok t \<Longrightarrow> serial t < 2147483647 \<Longrightarrow> ids_ok (t\<lparr>serial := serial t + 1\<rparr>)"
  by (auto simp: ids_ok_def bounded_def list_all_iff)

lemma ids_ok_bounded: "ids_ok t \<Longrightarrow> bounded t"
  by (simp add: ids_ok_def)

lemma bounded_insert:
  assumes "bounded t" and "serial t < 2147483647"
  shows "bounded \<lparr>rows = put k \<lparr>rid = serial t + 1, rvals = f\<rparr> (rows t), serial = serial t + 1\<rparr>"
    and "distinct (map rid (rows t)) \<Longrightarrow>
      distinct (map rid (put k \<lparr>rid = serial t + 1, rvals = f\<rparr> (rows t)))"
proof -
  show "bounded \<lparr>rows = put k \<lparr>rid = serial t + 1, rvals = f\<rparr> (rows t), serial = serial t + 1\<rparr>"
    using assms by (auto simp: bounded_def list_all_iff set_put)
  have "serial t + 1 \<notin> rid ` set (rows t)"
    using assms(1) by (auto simp: bounded_def list_all_iff)
  then show "distinct (map rid (rows t)) \<Longrightarrow>
      distinct (map rid (put k \<lparr>rid = serial t + 1, rvals = f\<rparr> (rows t)))"
    by (simp add: map_put distinct_put)
qed

lemma bounded_skip: "bounded t \<Longrightarrow> serial t < 2147483647 \<Longrightarrow> bounded (t\<lparr>serial := serial t + 1\<rparr>)"
  by (auto simp: bounded_def list_all_iff)

lemma has_id_mono: "set (rows t) \<subseteq> set (rows t') \<Longrightarrow> has_id t i \<Longrightarrow> has_id t' i"
  by (auto simp: has_id_def list_ex_iff)

lemma stands_mono: "set (rows t) \<subseteq> set (rows t') \<Longrightarrow> stands t i x \<Longrightarrow> stands t' i x"
  by (auto simp: stands_def list_ex_iff)

lemma has_id_int4: "bounded t \<Longrightarrow> has_id t i \<Longrightarrow> int4 i"
  by (auto simp: bounded_def has_id_def list_all_iff list_ex_iff int4_def)

lemma scalar_row_citations: "scalar_row f ''citations'' = Null"
  by (simp add: scalar_row_def citations_not_scalar)

lemma kept_refl: "bounded t \<Longrightarrow> kept t t"
  by (simp add: kept_def)

lemma kept_trans: "kept t t1 \<Longrightarrow> kept t1 t2 \<Longrightarrow> kept t t2"
  by (auto simp: kept_def)

lemma kept_ids_ok: "kept t t' \<Longrightarrow> ids_ok t \<Longrightarrow> ids_ok t'"
  by (simp add: kept_def ids_ok_def)

lemma insert_citation_keeps:
  assumes "map_of (tables c) cn = Some t" and "bounded t"
    and "plain_name cn" and "insert_citation c cn x = (r, c')"
  shows "\<exists>t'. tables c' = AList.update cn t' (tables c) \<and> kept t t' \<and>
    (\<forall>y. r = Inr y \<longrightarrow> (\<exists>i. y = Some i \<and> has_id t' i \<and> (well_typed x \<longrightarrow> stands t' i x)))"
proof (rule insert_citation_cases [OF assms(1,2,3), of x])
  fix e c''
  assume a: "insert_citation c cn x = (Inl e, c'')"
    "tables c'' = tables c \<or>
       serial t < 2147483647 \<and> tables c'' = AList.update cn (t\<lparr>serial := serial t + 1\<rparr>) (tables c)"
  have eq: "r = Inl e" "c' = c''" using a(1) assms(4) by simp_all
  from a(2) show ?thesis
  proof
    assume "tables c'' = tables c"
    then show ?thesis
      using assms(1,2) eq by (intro exI [of _ t]) (simp add: update_triv kept_refl)
  next
    assume "serial t < 2147483647 \<and>
      tables c'' = AList.update cn (t\<lparr>serial := serial t + 1\<rparr>) (tables c)"
    then show ?thesis
      using assms(2) eq
      by (intro exI [of _ "t\<lparr>serial := serial t + 1\<rparr>"])
         (simp add: kept_def bounded_skip null_citations_def)
  qed
next
  fix stored
  assume a: "read_vals c (items_but_citations x) = Inr stored" "serial t < 2147483647"
    "insert_citation c cn x =
        (Inr (Some (serial t + 1)),
         c\<lparr>tables := AList.update cn
            \<lparr>rows = put (place c cn t) \<lparr>rid = serial t + 1, rvals = row_of stored\<rparr> (rows t),
             serial = serial t + 1\<rparr> (tables c)\<rparr>)"
  let ?row = "\<lparr>rid = serial t + 1, rvals = row_of stored\<rparr>"
  let ?t' = "\<lparr>rows = put (place c cn t) ?row (rows t), serial = serial t + 1\<rparr>"
  have eq: "r = Inr (Some (serial t + 1))" "tables c' = AList.update cn ?t' (tables c)"
    using a(3) assms(4) by auto
  have "null_citations t \<longrightarrow> null_citations ?t'"
    using read_items_citations [OF a(1)] by (simp add: null_citations_def list_all_put)
  then have "kept t ?t'"
    using bounded_insert [OF assms(2) a(2), of "place c cn t" "row_of stored"]
    by (simp add: kept_def set_put subset_insertI)
  moreover have "has_id ?t' (serial t + 1)"
    by (simp add: has_id_def list_ex_iff set_put)
  moreover have "stands ?t' (serial t + 1) x" if "well_typed x"
  proof -
    have "stored = items_but_citations x"
      using a(1) by (simp add: read_items_typed [OF that])
    then have "list_all (\<lambda>k. rvals ?row k = field x k) scalar_fields"
      by (simp add: row_of_items scalar_row_def list_all_iff)
    then show ?thesis
      unfolding stands_def list_ex_iff by (intro bexI [of _ ?row]) (simp_all add: set_put)
  qed
  ultimately show ?thesis
    using eq by (intro exI [of _ ?t']) auto
next
  fix stored k ks v r'
  assume a: "read_vals c (items_but_citations x) = Inr stored" "serial t < 2147483647"
    "clash_cols (rows t) (row_of stored) = k # ks"
    "server_value c Compared (column_type k) (field x k) = Inr v"
    "find (\<lambda>r. v \<noteq> Null \<and> cell r k = v) (rows t) = Some r'"
    "insert_citation c cn x =
        (Inr (Some (rid r')),
         c\<lparr>tables := AList.update cn (t\<lparr>serial := serial t + 1\<rparr>) (tables c)\<rparr>)"
  let ?t' = "t\<lparr>serial := serial t + 1\<rparr>"
  have eq: "r = Inr (Some (rid r'))" "tables c' = AList.update cn ?t' (tables c)"
    using a(6) assms(4) by auto
  note kk = clash_cols_Cons [OF a(3)]
  have r': "r' \<in> set (rows t)" "v \<noteq> Null" "cell r' k = v"
    using find_SomeD [OF a(5)] by simp_all
  have "has_id ?t' (rid r')"
    using r'(1) by (auto simp: has_id_def list_ex_iff)
  moreover have "stands ?t' (rid r') x" if "well_typed x"
  proof -
    have "v = field x k"
      using a(4) by (simp add: server_value_fits [OF fits_unique [OF that kk(1)]])
    moreover have "k \<noteq> ''id''" using kk(1) unique_cols_columns by simp
    ultimately have "field x k \<noteq> Null \<and> rvals r' k = field x k"
      using r'(2,3) by (simp add: cell_def)
    then have "clash (field x) r'"
      using kk(1) by (auto simp: clash_def list_ex_iff)
    then show ?thesis
      unfolding stands_def list_ex_iff using r'(1) by (intro bexI [of _ r']) simp_all
  qed
  moreover have "kept t ?t'"
    using bounded_skip [OF assms(2) a(2)] by (simp add: kept_def null_citations_def)
  ultimately show ?thesis
    using eq by (intro exI [of _ ?t']) auto
qed

lemma insert_citations_keeps:
  assumes "map_of (tables c) cn = Some t" and "bounded t"
    and "plain_name cn" and "list_all (has_id t) acc"
    and "insert_citations c cn xs acc = (r, c')"
  shows "\<exists>t'. tables c' = AList.update cn t' (tables c) \<and> kept t t' \<and>
    (\<forall>ids. r = Inr ids \<longrightarrow>
       list_all (has_id t') ids \<and>
       (\<exists>l. ids = acc @ l \<and> length l = length xs \<and>
          (list_all well_typed xs \<longrightarrow> list_all2 (stands t') l xs)))"
  using assms(1,2,4,5)
proof (induction xs arbitrary: c t acc)
  case Nil
  then show ?case by (intro exI [of _ t]) (auto simp: update_triv kept_refl)
next
  case (Cons x xs)
  obtain r1 c1 where s1: "insert_citation c cn x = (r1, c1)"
    by (cases "insert_citation c cn x")
  from insert_citation_keeps [OF Cons.prems(1,2) assms(3) s1]
  obtain t1 where t1: "tables c1 = AList.update cn t1 (tables c)" "kept t t1"
      "\<forall>y. r1 = Inr y \<longrightarrow> (\<exists>i. y = Some i \<and> has_id t1 i \<and> (well_typed x \<longrightarrow> stands t1 i x))"
    by blast
  have b1: "bounded t1" "set (rows t) \<subseteq> set (rows t1)"
    using t1(2) by (simp_all add: kept_def)
  show ?case
  proof (cases r1)
    case (Inl e)
    then have "r = Inl e" "c' = c1" using Cons.prems(4) s1 by simp_all
    then show ?thesis using t1 by (intro exI [of _ t1]) simp
  next
    case (Inr y)
    then obtain i where i: "y = Some i" "has_id t1 i" "well_typed x \<longrightarrow> stands t1 i x"
      using t1(3) by blast
    have m1: "map_of (tables c1) cn = Some t1" by (simp add: t1(1) update_conv')
    have acc1: "list_all (has_id t1) (acc @ [i])"
      using Cons.prems(3) i(2) b1(2) by (auto simp: list_all_iff intro: has_id_mono)
    have rest: "insert_citations c1 cn xs (acc @ [i]) = (r, c')"
      using Cons.prems(4) s1 Inr i(1) by simp
    from Cons.IH [OF m1 b1(1) acc1 rest]
    obtain t2 where t2: "tables c' = AList.update cn t2 (tables c1)" "kept t1 t2"
        "\<forall>ids. r = Inr ids \<longrightarrow>
           list_all (has_id t2) ids \<and>
           (\<exists>l. ids = (acc @ [i]) @ l \<and> length l = length xs \<and>
              (list_all well_typed xs \<longrightarrow> list_all2 (stands t2) l xs))"
      by blast
    have tabs: "tables c' = AList.update cn t2 (tables c)"
      by (simp add: t2(1) t1(1))
    have b2: "set (rows t1) \<subseteq> set (rows t2)"
      using t2(2) by (simp add: kept_def)
    have res: "list_all (has_id t2) ids \<and>
       (\<exists>l. ids = acc @ l \<and> length l = length (x # xs) \<and>
          (list_all well_typed (x # xs) \<longrightarrow> list_all2 (stands t2) l (x # xs)))"
      if "r = Inr ids" for ids
    proof -
      have "list_all (has_id t2) ids \<and>
           (\<exists>l. ids = (acc @ [i]) @ l \<and> length l = length xs \<and>
              (list_all well_typed xs \<longrightarrow> list_all2 (stands t2) l xs))"
        using t2(3) that by simp
      then obtain l where l: "list_all (has_id t2) ids" "ids = (acc @ [i]) @ l" "length l = length xs"
          "list_all well_typed xs \<longrightarrow> list_all2 (stands t2) l xs"
        by auto
      have "list_all well_typed (x # xs) \<longrightarrow> list_all2 (stands t2) (i # l) (x # xs)"
        using l(4) i(3) b2 by (auto intro: stands_mono)
      then show ?thesis
        using l(1,2,3) by (intro conjI exI [of _ "i # l"]) simp_all
    qed
    show ?thesis
      using tabs kept_trans [OF t1(2) t2(2)] res by (intro exI [of _ t2]) blast
  qed
qed

section \<open>Append keeps the tables consistent\<close>

lemma tables_okE:
  assumes "tables_ok c n"
  obtains tp tc where "map_of (tables c) n = Some tp" "map_of (tables c) (n @ ''_citations'') = Some tc"
    "ids_ok tp" "ids_ok tc" "null_citations tc" "list_all (refs_ok tc) (rows tp)"
  using assms by (auto simp: tables_ok_def split: option.splits)

lemma tables_okI:
  assumes "map_of (tables c) n = Some tp" "map_of (tables c) (n @ ''_citations'') = Some tc"
    "ids_ok tp" "ids_ok tc" "null_citations tc" "list_all (refs_ok tc) (rows tp)"
  shows "tables_ok c n"
  using assms by (simp add: tables_ok_def)

lemma refs_ok_mono:
  assumes "set (rows tc) \<subseteq> set (rows tc')" and "refs_ok tc r"
  shows "refs_ok tc' r"
  using assms by (auto simp: refs_ok_def list_all_iff intro: has_id_mono split: val.splits)

lemma plain_name_citations: "plain_name n \<Longrightarrow> plain_name (n @ ''_citations'')"
  by (simp add: plain_name_def)

text \<open>
  The first half of \<^verbatim>\<open>append\<close>: whatever its outcome, the citation table stays as inserts
  leave it and loses no row; when it returns, it returns \<^verbatim>\<open>None\<close> for a Paper without
  citations and otherwise one identifier of the table for each citation.
\<close>

lemma citation_phase_keeps:
  assumes "map_of (tables c) (name s @ ''_citations'') = Some tc" and "bounded tc"
    and "plain_name (name s)" and "citation_phase s c obj = (r, c1)"
  shows "\<exists>tc'. tables c1 = AList.update (name s @ ''_citations'') tc' (tables c) \<and>
    kept tc tc' \<and>
    (\<forall>ids. r = Inr ids \<longrightarrow>
       (case ids of
          None \<Rightarrow> citations obj = None \<and> c1 = c
        | Some l \<Rightarrow>
            (\<exists>cs. citations obj = Some cs \<and> insert_citations c (name s @ ''_citations'') cs [] = (Inr l, c1) \<and>
               list_all (has_id tc') l \<and> length l = length cs \<and>
               (list_all well_typed cs \<longrightarrow> list_all2 (stands tc') l cs))))"
proof (cases "citations obj")
  case None
  then have "r = Inr None" "c1 = c" using assms(4) by (simp_all add: citation_phase_def)
  then show ?thesis
    using assms(1,2) None by (intro exI [of _ tc]) (simp add: update_triv kept_refl)
next
  case (Some cs)
  obtain r' c' where ic: "insert_citations c (name s @ ''_citations'') cs [] = (r', c')"
    by (cases "insert_citations c (name s @ ''_citations'') cs []")
  have rc: "c1 = c'" "r = (case r' of Inl e \<Rightarrow> Inl e | Inr ids \<Rightarrow> Inr (Some ids))"
    using assms(4) Some ic by (auto simp: citation_phase_def split: sum.splits)
  from insert_citations_keeps [OF assms(1,2) plain_name_citations [OF assms(3)] _ ic]
  obtain tc' where t: "tables c' = AList.update (name s @ ''_citations'') tc' (tables c)"
      "kept tc tc'"
      "\<forall>ids. r' = Inr ids \<longrightarrow>
         list_all (has_id tc') ids \<and>
         (\<exists>l. ids = [] @ l \<and> length l = length cs \<and>
            (list_all well_typed cs \<longrightarrow> list_all2 (stands tc') l cs))"
    by auto
  show ?thesis
    using t Some ic rc by (intro exI [of _ tc']) (auto split: sum.splits option.splits)
qed

lemma name_citations_neq: "n \<noteq> n @ ''_citations''"
  by simp

text \<open>
  What a call of \<^verbatim>\<open>append\<close> does to a store whose tables are consistent: either the store is
  what it was and the table of the Papers has the rows it had; or the call has returned,
  the transaction is not aborted, and the store has gained the identifier of a new row.
\<close>

lemma append_outcome:
  assumes "tables_ok c (name s)" and "plain_name (name s)"
    and "map_of (tables c) (name s) = Some tp"
    and "map_of (tables c) (name s @ ''_citations'') = Some tc"
  obtains
    (kept) r c' tp' tc' where "append s c obj b = (r, s, c')" "tables_ok c' (name s)"
      "map_of (tables c') (name s) = Some tp'" "rows tp' = rows tp"
      "map_of (tables c') (name s @ ''_citations'') = Some tc'" "set (rows tc) \<subseteq> set (rows tc')"
  | (added) c' tp' tc' row ids c1 where
      "append s c obj b = (Inr (), s\<lparr>rowIds := rowIds s @ [rid row]\<rparr>, c')"
      "\<not> aborted c'" "tables_ok c' (name s)"
      "map_of (tables c') (name s) = Some tp'" "set (rows tp') = insert row (set (rows tp))"
      "rid row = serial tp + 1"
      "map_of (tables c') (name s @ ''_citations'') = Some tc'" "set (rows tc) \<subseteq> set (rows tc')"
      "citation_phase s c obj = (Inr ids, c1)"
      "rvals row ''citations'' = cit_cell ids"
      "case ids of
          None \<Rightarrow> citations obj = None \<and> tc' = tc
        | Some l \<Rightarrow>
            (\<exists>cs. citations obj = Some cs \<and>
               insert_citations c (name s @ ''_citations'') cs [] = (Inr l, c1) \<and>
               list_all (has_id tc') l \<and> length l = length cs \<and>
               (list_all well_typed cs \<longrightarrow> list_all2 (stands tc') l cs))"
      "well_typed obj \<longrightarrow> rvals row = paper_row obj ids"
proof -
  let ?n = "name s" and ?cn = "name s @ ''_citations''"
  obtain tp0 tc0 where t0: "map_of (tables c) ?n = Some tp0" "map_of (tables c) ?cn = Some tc0"
      "ids_ok tp0" "ids_ok tc0" "null_citations tc0" "list_all (refs_ok tc0) (rows tp0)"
    using assms(1) by (rule tables_okE)
  have "tp0 = tp" "tc0 = tc" using t0(1,2) assms(3,4) by simp_all
  note t = t0 [unfolded this]
  obtain r1 c1 where cp: "citation_phase s c obj = (r1, c1)"
    by (cases "citation_phase s c obj")
  from citation_phase_keeps [OF t(2) ids_ok_bounded [OF t(4)] assms(2) cp]
  obtain tc' where tc0: "tables c1 = AList.update ?cn tc' (tables c)" "kept tc tc'"
    and tc5: "\<forall>ids. r1 = Inr ids \<longrightarrow>
       (case ids of
          None \<Rightarrow> citations obj = None \<and> c1 = c
        | Some l \<Rightarrow>
            (\<exists>cs. citations obj = Some cs \<and> insert_citations c ?cn cs [] = (Inr l, c1) \<and>
               list_all (has_id tc') l \<and> length l = length cs \<and>
               (list_all well_typed cs \<longrightarrow> list_all2 (stands tc') l cs)))"
    by blast
  have "ids_ok tc'" "null_citations tc'" "set (rows tc) \<subseteq> set (rows tc')"
    using tc0(2) t(4,5) kept_ids_ok [OF tc0(2)] by (simp_all add: kept_def)
  note tc' = tc0(1) this tc5
  have m1: "map_of (tables c1) ?n = Some tp" "map_of (tables c1) ?cn = Some tc'"
    using t(1) by (simp_all add: tc'(1) update_conv')
  have refs: "list_all (refs_ok tc') (rows tp)"
    using t(6) tc'(4) by (auto simp: list_all_iff intro: refs_ok_mono)
  have ok1: "tables_ok (c1\<lparr>aborted := a\<rparr>) ?n" for a
    using m1 t(3) tc'(2,3) refs by (intro tables_okI [where tp = tp and tc = tc']) simp_all
  have ok1': "tables_ok c1 ?n"
    using m1 t(3) tc'(2,3) refs by (intro tables_okI [where tp = tp and tc = tc']) simp_all
  show ?thesis
  proof (cases r1)
    case (Inl e)
    then have "append s c obj b = (Inl e, s, c1)"
      by (simp add: append_def cp)
    then show ?thesis
      using kept [OF _ ok1' m1(1) _ m1(2) tc'(4)] by simp
  next
    case (Inr ids)
    have ids: "case ids of
          None \<Rightarrow> citations obj = None \<and> c1 = c
        | Some l \<Rightarrow>
            (\<exists>cs. citations obj = Some cs \<and> insert_citations c ?cn cs [] = (Inr l, c1) \<and>
               list_all (has_id tc') l \<and> length l = length cs \<and>
               (list_all well_typed cs \<longrightarrow> list_all2 (stands tc') l cs))"
      using tc'(5) Inr by simp
    have i4: "case ids of None \<Rightarrow> True | Some l \<Rightarrow> list_all int4 l"
      using ids has_id_int4 [OF ids_ok_bounded [OF tc'(2)]]
      by (auto simp: list_all_iff split: option.splits)
    have app: "append s c obj b' =
      (case execute_insert c1 ?n (paper_vals obj ids) of
            (Inr i, c2) \<Rightarrow> (Inr (), s\<lparr>rowIds := rowIds s @ [i]\<rparr>, commit c2)
          | (Inl (IntegrityError msg), c2) \<Rightarrow>
              if b' then (Inl (ValueError (''Paper already exists: '' @ msg)), s, commit c2)
              else (Inr (), s, c2)
          | (Inl e, c2) \<Rightarrow> (Inl e, s, c2))" for b'
      by (simp add: append_def cp Inr)
    show ?thesis
    proof (rule execute_insert_cases [OF m1(1) ids_ok_bounded [OF t(3)], of "paper_vals obj ids"])
      fix e
      assume a: "execute_insert c1 ?n (paper_vals obj ids) = (Inl e, c1\<lparr>aborted := True\<rparr>)"
        "\<forall>m. e \<noteq> IntegrityError m"
      have "append s c obj b = (Inl e, s, c1\<lparr>aborted := True\<rparr>)"
        using a(2) by (cases e) (simp_all add: app a(1))
      then show ?thesis
        using kept [OF _ ok1 [of True], of "Inl e" tp tc'] m1 tc'(4) by simp
    next
      fix stored k ks
      assume a: "serial tp < 2147483647"
        "execute_insert c1 ?n (paper_vals obj ids) =
        (Inl (IntegrityError (violation_message ?n k (row_of stored k))),
         c1\<lparr>tables := AList.update ?n (tp\<lparr>serial := serial tp + 1\<rparr>) (tables c1), aborted := True\<rparr>)"
      let ?tp' = "tp\<lparr>serial := serial tp + 1\<rparr>"
      let ?c2 = "c1\<lparr>tables := AList.update ?n ?tp' (tables c1), aborted := True\<rparr>"
      have ok2: "tables_ok (?c2\<lparr>aborted := x\<rparr>) ?n" for x
        using m1 ids_ok_skip [OF t(3) a(1)] tc'(2,3) refs
        by (intro tables_okI [where tp = ?tp' and tc = tc']) (simp_all add: update_conv')
      have m2: "map_of (tables (?c2\<lparr>aborted := x\<rparr>)) ?n = Some ?tp'"
        "map_of (tables (?c2\<lparr>aborted := x\<rparr>)) ?cn = Some tc'" for x
        using m1 by (simp_all add: update_conv')
      show ?thesis
      proof (cases b)
        case True
        have "append s c obj True =
            (Inl (ValueError (''Paper already exists: '' @ violation_message ?n k (row_of stored k))),
             s, ?c2\<lparr>aborted := False\<rparr>)"
          by (simp add: app a(2) commit_def)
        then have "append s c obj b =
            (Inl (ValueError (''Paper already exists: '' @ violation_message ?n k (row_of stored k))),
             s, ?c2\<lparr>aborted := False\<rparr>)"
          using True by simp
        then show ?thesis
          using kept [OF _ ok2 [of False] m2(1) [of False] _ m2(2) [of False] tc'(4)] by simp
      next
        case False
        have "append s c obj False = (Inr (), s, ?c2\<lparr>aborted := True\<rparr>)"
          by (simp add: app a(2))
        then have "append s c obj b = (Inr (), s, ?c2\<lparr>aborted := True\<rparr>)"
          using False by simp
        then show ?thesis
          using kept [OF _ ok2 [of True] m2(1) [of True] _ m2(2) [of True] tc'(4)] by simp
      qed
    next
      fix stored
      assume a: "\<not> aborted c1" "read_vals c1 (paper_vals obj ids) = Inr stored"
        "serial tp < 2147483647"
        "execute_insert c1 ?n (paper_vals obj ids) =
        (Inr (serial tp + 1),
         c1\<lparr>tables := AList.update ?n
            \<lparr>rows = put (place c1 ?n tp) \<lparr>rid = serial tp + 1, rvals = row_of stored\<rparr> (rows tp),
             serial = serial tp + 1\<rparr> (tables c1)\<rparr>)"
      let ?row = "\<lparr>rid = serial tp + 1, rvals = row_of stored\<rparr>"
      let ?tp' = "\<lparr>rows = put (place c1 ?n tp) ?row (rows tp), serial = serial tp + 1\<rparr>"
      let ?c2 = "c1\<lparr>tables := AList.update ?n ?tp' (tables c1)\<rparr>"
      have cell0: "row_of stored ''citations'' = cit_cell ids"
        using read_paper_vals_citations [OF a(2) i4] .
      then have cell: "rvals ?row ''citations'' = cit_cell ids"
        by simp
      have m2: "map_of (tables ?c2) ?n = Some ?tp'" "map_of (tables ?c2) ?cn = Some tc'"
        using m1 by (simp_all add: update_conv')
      have "refs_ok tc' ?row"
        using ids by (auto simp: refs_ok_def cell0 cit_cell_def split: option.splits)
      then have "list_all (refs_ok tc') (rows ?tp')"
        using refs by (simp add: list_all_put)
      then have ok2: "tables_ok ?c2 ?n"
        using m2 ids_ok_insert [OF t(3) a(3)] tc'(2,3)
        by (intro tables_okI [where tp = ?tp' and tc = tc']) simp_all
      have app2: "append s c obj b = (Inr (), s\<lparr>rowIds := rowIds s @ [rid ?row]\<rparr>, ?c2)"
        using a(1) by (simp add: app a(4) commit_def commit_clean)
      have typed: "well_typed obj \<longrightarrow> rvals ?row = paper_row obj ids"
      proof
        assume "well_typed obj"
        from read_paper_vals_typed [OF this i4, of c1]
        have "stored = paper_vals obj ids" using a(2) by simp
        then show "rvals ?row = paper_row obj ids" by (simp add: row_of_paper_vals)
      qed
      have same: "tc' = tc" if "ids = None"
      proof -
        have "c1 = c" using ids that by simp
        then show ?thesis using m1(2) t(2) by simp
      qed
      have ids': "case ids of
          None \<Rightarrow> citations obj = None \<and> tc' = tc
        | Some l \<Rightarrow>
            (\<exists>cs. citations obj = Some cs \<and> insert_citations c ?cn cs [] = (Inr l, c1) \<and>
               list_all (has_id tc') l \<and> length l = length cs \<and>
               (list_all well_typed cs \<longrightarrow> list_all2 (stands tc') l cs))"
        using ids same by (cases ids) simp_all
      show ?thesis
        using added [OF app2 _ ok2 m2(1) _ _ m2(2) tc'(4) _ cell ids' typed] a(1) cp Inr
        by (simp add: set_put)
    qed
  qed
qed

lemma append_step_ok:
  assumes "tables_ok c (name s)" and "plain_name (name s)" and "append s c obj b = (r, s', c')"
  shows "tables_ok c' (name s') \<and> name s' = name s \<and> cols s' = cols s"
proof -
  obtain tp tc where t: "map_of (tables c) (name s) = Some tp"
      "map_of (tables c) (name s @ ''_citations'') = Some tc"
    using assms(1) by (auto elim: tables_okE)
  show ?thesis
    by (rule append_outcome [OF assms(1,2) t, of obj b]) (use assms(3) in auto)
qed

lemma appends_ok:
  assumes "tables_ok c (name s)" and "plain_name (name s)" and "appends s c ops = (s', c')"
  shows "tables_ok c' (name s') \<and> name s' = name s \<and> cols s' = cols s"
  using assms
proof (induction ops arbitrary: s c)
  case Nil
  then show ?case by simp
next
  case (Cons pb ops)
  obtain r s1 c1 where a: "append s c (fst pb) (snd pb) = (r, s1, c1)"
    by (cases "append s c (fst pb) (snd pb)")
  have s1: "tables_ok c1 (name s1)" "name s1 = name s" "cols s1 = cols s"
    using append_step_ok [OF Cons.prems(1,2) a] by blast+
  have "appends s1 c1 ops = (s', c')" using Cons.prems(3) a by simp
  moreover have "plain_name (name s1)" using s1(2) Cons.prems(2) by simp
  ultimately have "tables_ok c' (name s') \<and> name s' = name s1 \<and> cols s' = cols s1"
    using s1(1) by (intro Cons.IH)
  then show ?case using s1(2,3) by auto
qed

section \<open>Stores made fresh\<close>

lemma plain_name_fresh: "plain_name u \<Longrightarrow> plain_name (fresh_name u)"
  by (auto simp: plain_name_def fresh_name_def)

lemma init_fresh_result:
  assumes "init_fresh c u = (Inr s0, c1)"
  shows "s0 = \<lparr>rowIds = [], name = fresh_name u, cols = columns\<rparr>" and "\<not> aborted c1"
    and "map_of (tables c1) (fresh_name u) = Some \<lparr>rows = [], serial = 0\<rparr>"
    and "map_of (tables c1) (fresh_name u @ ''_citations'') = Some \<lparr>rows = [], serial = 0\<rparr>"
  using assms
  by (auto simp: init_fresh_def execute_create_def commit_def column_names_def Let_def map_add_def
      split: if_splits option.splits)

lemma empty_table_ok: "ids_ok \<lparr>rows = [], serial = 0\<rparr>" "null_citations \<lparr>rows = [], serial = 0\<rparr>"
  by (simp_all add: ids_ok_def bounded_def null_citations_def)

lemma init_fresh_tables_ok:
  assumes "init_fresh c u = (Inr s0, c1)"
  shows "tables_ok c1 (name s0)"
  using init_fresh_result [OF assms] empty_table_ok
  by (intro tables_okI [where tp = "\<lparr>rows = [], serial = 0\<rparr>" and tc = "\<lparr>rows = [], serial = 0\<rparr>"])
     simp_all

lemma init_fresh_empty: "init_fresh empty_conn u = (Inr (fresh_store u), fresh_conn u)"
  by (simp add: init_fresh_def execute_create_def commit_def column_names_def empty_conn_def
      fresh_store_def fresh_conn_def Let_def)

lemma plain_demo_uuid: "plain_name demo_uuid"
  by (simp add: plain_name_def demo_uuid_def)

section \<open>Decoding a row\<close>

lemma columns_split: "columns = ''id'' # scalar_fields @ [''citations'']"
  by (simp add: columns_def scalar_fields_def)

lemma id_not_scalar: "''id'' \<notin> set scalar_fields"
  by (simp add: scalar_fields_def columns_def)

lemma try_setitem_cell:
  "key \<noteq> ''citations'' \<Longrightarrow>
   try_setitem p key (Cell v) =
     (if key \<in> set scalar_fields then Paper ((field p)(key := v)) (citations p) else p)"
  by (simp add: try_setitem_def setitem_def paper_fields_def)

lemma yield_cells_scalars:
  assumes "''citations'' \<notin> set ks"
  shows "yield_cells sub (ks @ ks') (map g ks @ vs) p =
    yield_cells sub ks' vs
      (Paper (\<lambda>k. if k \<in> set ks \<and> k \<in> set scalar_fields then g k else field p k) (citations p))"
  using assms
proof (induction ks arbitrary: p)
  case Nil
  then show ?case by simp
next
  case (Cons key ks)
  let ?p1 = "try_setitem p key (Cell (g key))"
  have key: "key \<noteq> ''citations''" and ks: "''citations'' \<notin> set ks"
    using Cons.prems by auto
  have step: "yield_cells sub ((key # ks) @ ks') (map g (key # ks) @ vs) p =
      yield_cells sub (ks @ ks') (map g ks @ vs) ?p1"
    using key by simp
  have cit: "citations ?p1 = citations p"
    using key by (simp add: try_setitem_cell)
  have fld: "(\<lambda>k. if k \<in> set ks \<and> k \<in> set scalar_fields then g k else field ?p1 k) =
      (\<lambda>k. if k \<in> set (key # ks) \<and> k \<in> set scalar_fields then g k else field p k)"
    using key by (auto simp: try_setitem_cell fun_eq_iff)
  show ?case
    unfolding step Cons.IH [OF ks] cit fld ..
qed

lemma scalars_of_row:
  "(\<lambda>k. if k \<in> set (''id'' # scalar_fields) \<and> k \<in> set scalar_fields then cell r k else field new_paper k)
     = scalar_row (rvals r)"
  using id_not_scalar by (auto simp: fun_eq_iff scalar_row_def cell_def new_paper_def)

lemma yield_cells_row:
  "yield_cells sub columns (tuple_of r) new_paper =
     yield_cells sub [''citations''] [rvals r ''citations''] (Paper (scalar_row (rvals r)) None)"
proof -
  have "yield_cells sub columns (tuple_of r) new_paper =
      yield_cells sub ((''id'' # scalar_fields) @ [''citations''])
        (map (cell r) (''id'' # scalar_fields) @ [cell r ''citations'']) new_paper"
    by (simp add: tuple_of_def columns_split)
  also have "\<dots> = yield_cells sub [''citations''] [cell r ''citations'']
      (Paper (\<lambda>k. if k \<in> set (''id'' # scalar_fields) \<and> k \<in> set scalar_fields then cell r k
                   else field new_paper k) (citations new_paper))"
    by (rule yield_cells_scalars) (simp add: citations_not_scalar)
  finally show ?thesis
    by (simp only: scalars_of_row) (simp add: new_paper_def cell_def)
qed

lemma yield_row_null:
  "rvals r ''citations'' = Null \<Longrightarrow>
   yield_cells sub columns (tuple_of r) new_paper = Inr (Paper (scalar_row (rvals r)) None)"
  by (simp add: yield_cells_row try_setitem_def setitem_def paper_fields_def)

lemma yield_row_ints:
  "rvals r ''citations'' = Ints ids \<Longrightarrow>
   yield_cells (Inr get) columns (tuple_of r) new_paper =
     (case map_results get ids of
        Inl e \<Rightarrow> Inl e
      | Inr ps \<Rightarrow> Inr (Paper (scalar_row (rvals r)) (Some ps)))"
  by (simp add: yield_cells_row try_setitem_def setitem_def paper_fields_def split: sum.splits)

section \<open>Resolving the rows of consistent tables\<close>

lemma find_by_id:
  assumes "distinct (map rid rs)" and "r \<in> set rs"
  shows "find (\<lambda>r'. rid r' = rid r) rs = Some r"
  using assms
proof (induction rs)
  case Nil
  then show ?case by simp
next
  case (Cons a rs)
  then show ?case by (cases "a = r") (auto simp: image_iff)
qed


lemma get_by_id_db_citation_row:
  assumes "map_of db (name s') = Some tc" and "cols s' = columns"
    and "distinct (map rid (rows tc))" and "r \<in> set (rows tc)" and "rvals r ''citations'' = Null"
  shows "get_by_id_db db s' (rid r) = Inr (Paper (scalar_row (rvals r)) None)"
  using assms
  by (simp add: get_by_id_db.simps fetch_by_id_def find_by_id yield_paper.simps
      yield_paper_with_def yield_row_null)

lemma map_results_rel:
  assumes "\<forall>k\<in>set l. \<exists>p. g k = Inr p \<and> Q k p"
  shows "\<exists>ps. map_results g l = Inr ps \<and> list_all2 Q l ps"
  using assms
proof (induction l)
  case Nil
  then show ?case by simp
next
  case (Cons k l)
  then obtain p ps where "g k = Inr p" "Q k p" "map_results g l = Inr ps" "list_all2 Q l ps"
    by auto
  then show ?case by simp
qed

lemma fold_max_zero: "\<forall>n\<in>set ns. n = (0::nat) \<Longrightarrow> fold max ns 0 = 0"
  by (induction ns) auto

lemma depth_flat:
  assumes "\<forall>p\<in>set ps. citations p = None"
  shows "depth (Paper f (Some ps)) = 1"
proof -
  have "\<forall>p\<in>set ps. depth p = 0"
    using assms by (metis depth.simps(1) paper.collapse)
  then have "\<forall>n\<in>set (map depth ps). n = 0" by auto
  then show ?thesis by (simp add: fold_max_zero)
qed

text \<open>
  Decoding a row of the table of the Papers: the fields are the cells of the row, and
  the citations are the rows of the citation table under the identifiers of the cell, in
  their order.
\<close>

lemma yield_paper_row:
  assumes "map_of db (name s @ ''_citations'') = Some tc" and "cols s = columns"
    and "distinct (map rid (rows tc))" and "null_citations tc" and "refs_ok tc r"
  shows "\<exists>p. yield_paper db s (Some (tuple_of r)) = Inr p \<and> field p = scalar_row (rvals r) \<and>
    depth p \<le> 1 \<and>
    (case rvals r ''citations'' of
       Ints l \<Rightarrow>
         (\<exists>ps. citations p = Some ps \<and>
            list_all2 (\<lambda>i q. \<exists>r'\<in>set (rows tc). rid r' = i \<and> q = Paper (scalar_row (rvals r')) None) l ps)
     | _ \<Rightarrow> citations p = None)"
proof (cases "rvals r ''citations''")
  case Null
  then show ?thesis
    using assms(2) by (simp add: yield_paper.simps yield_paper_with_def yield_row_null)
next
  case (Ints l)
  let ?s' = "\<lparr>rowIds = map rid (rows tc), name = name s @ ''_citations'', cols = columns\<rparr>"
  let ?Q = "\<lambda>i q. \<exists>r'\<in>set (rows tc). rid r' = i \<and> q = Paper (scalar_row (rvals r')) None"
  have att: "attach_db db (name s @ ''_citations'') = Inr ?s'"
    using assms(1) by (simp add: attach_db_def column_names_def)
  have "\<forall>k\<in>set l. \<exists>p. get_by_id_db db ?s' k = Inr p \<and> ?Q k p"
  proof
    fix k assume "k \<in> set l"
    then have "has_id tc k"
      using assms(5) Ints by (simp add: refs_ok_def list_all_iff)
    then obtain r' where r': "r' \<in> set (rows tc)" "rid r' = k"
      by (auto simp: has_id_def list_ex_iff)
    have "rvals r' ''citations'' = Null"
      using assms(4) r'(1) by (simp add: null_citations_def list_all_iff)
    then have "get_by_id_db db ?s' (rid r') = Inr (Paper (scalar_row (rvals r')) None)"
      using assms(1,3) r'(1)
      by (intro get_by_id_db_citation_row) simp_all
    then show "\<exists>p. get_by_id_db db ?s' k = Inr p \<and> ?Q k p"
      using r' by auto
  qed
  then obtain ps where ps: "map_results (\<lambda>k. get_by_id_db db ?s' k) l = Inr ps"
      "list_all2 ?Q l ps"
    using map_results_rel [of l "\<lambda>k. get_by_id_db db ?s' k" ?Q] by auto
  have flat: "\<forall>p\<in>set ps. citations p = None"
  proof
    fix p assume "p \<in> set ps"
    then obtain j where "j < length ps" "ps ! j = p" by (auto simp: in_set_conv_nth)
    then have "?Q (l ! j) p" using ps(2) by (auto simp: list_all2_conv_all_nth)
    then show "citations p = None" by auto
  qed
  have "yield_paper db s (Some (tuple_of r)) = Inr (Paper (scalar_row (rvals r)) (Some ps))"
    using assms(2) Ints ps(1)
    by (simp add: yield_paper.simps yield_paper_with_def att yield_row_ints)
  then show ?thesis
    using Ints ps(2) depth_flat [OF flat] by simp
qed (use assms(5) in \<open>simp_all add: refs_ok_def\<close>)

section \<open>Citations are one level deep\<close>

text \<open>
  C9. In a store made fresh and written by any sequence of calls of \<^verbatim>\<open>append\<close>, every row
  of the citation table has NULL in its column \<^verbatim>\<open>citations\<close> (the insert of a citation leaves
  that field out), and so whatever \<^verbatim>\<open>__get_by_id\<close> returns nests Papers at most one level
  deep: the Papers in its \<^verbatim>\<open>citations\<close> have none of their own.
\<close>

theorem citation_rows_have_no_citations:
  assumes "init_fresh c0 u = (Inr s0, c1)" and "plain_name u" and "appends s0 c1 ops = (s, c)"
  shows "(\<exists>tc. map_of (tables c) (name s @ ''_citations'') = Some tc \<and> null_citations tc) \<and>
    (\<forall>i p. get_by_id_db (tables c) s i = Inr p \<longrightarrow> depth p \<le> 1)"
proof -
  have n0: "name s0 = fresh_name u" "cols s0 = columns"
    using init_fresh_result(1) [OF assms(1)] by simp_all
  have "plain_name (name s0)"
    using assms(2) n0 by (simp add: plain_name_fresh)
  from appends_ok [OF init_fresh_tables_ok [OF assms(1)] this assms(3)]
  have ok: "tables_ok c (name s)" "name s = name s0" "cols s = columns"
    using n0 by auto
  obtain tp tc where t: "map_of (tables c) (name s) = Some tp"
      "map_of (tables c) (name s @ ''_citations'') = Some tc"
      "ids_ok tp" "ids_ok tc" "null_citations tc" "list_all (refs_ok tc) (rows tp)"
    using ok(1) by (rule tables_okE)
  have dtc: "distinct (map rid (rows tc))" using t(4) by (simp add: ids_ok_def)
  have "depth p \<le> 1" if "get_by_id_db (tables c) s i = Inr p" for i p
  proof (cases "find (\<lambda>r. rid r = i) (rows tp)")
    case None
    then show ?thesis
      using that t(1)
      by (simp add: get_by_id_db.simps fetch_by_id_def yield_paper.simps yield_paper_with_def)
  next
    case (Some r)
    then have r: "r \<in> set (rows tp)" by (auto dest: find_SomeD)
    then have "refs_ok tc r" using t(6) by (simp add: list_all_iff)
    from yield_paper_row [OF t(2) ok(3) dtc t(5) this]
    show ?thesis
      using that t(1) Some by (auto simp: get_by_id_db.simps fetch_by_id_def)
  qed
  then show ?thesis using t(2,5) by blast
qed

section \<open>In-place addition\<close>

text \<open>
  C10. \<^verbatim>\<open>store += other\<close> with an argument whose type is not \<^verbatim>\<open>Paper\<close> (a list of Papers,
  for one) raises nothing and returns the store: the store, its identifiers, the tables
  and the state of the transaction are what they were.
\<close>

theorem iadd_not_paper: "\<not> is_paper other \<Longrightarrow> iadd s c other = (Inr s, s, c)"
  by (cases other) (simp_all add: iadd_def)

theorem iadd_not_paper_witness:
  "\<not> is_paper (ListObj [paper_a, paper_a]) \<and>
   iadd demo_store demo_conn (ListObj [paper_a, paper_a]) = (Inr demo_store, demo_store, demo_conn)"
  using iadd_not_paper [of "ListObj [paper_a, paper_a]" demo_store demo_conn] by simp

section \<open>An identifier without a row\<close>

lemma get_by_id_db_missing:
  assumes "map_of db (name s) = Some t" and "\<forall>r\<in>set (rows t). rid r \<noteq> i"
  shows "get_by_id_db db s i = Inl TypeError"
proof -
  have "find (\<lambda>r. rid r = i) (rows t) = None"
    using assms(2) by (simp add: find_None_iff)
  then show ?thesis
    using assms(1)
    by (simp add: get_by_id_db.simps fetch_by_id_def yield_paper.simps yield_paper_with_def)
qed

text \<open>
  C4. For an identifier that no row of the table has, \<^verbatim>\<open>__get_by_id\<close> does not raise the
  \<^verbatim>\<open>KeyError('No Paper with that ID exists.')\<close> it was written to raise: \<^verbatim>\<open>fetchone\<close> returns
  \<^verbatim>\<open>None\<close>, the handler is not entered, and \<^verbatim>\<open>len(None)\<close> in \<^verbatim>\<open>_yield_paper\<close> raises
  \<^verbatim>\<open>TypeError\<close>.
\<close>

theorem get_by_id_missing_row:
  assumes "\<not> aborted c" and "map_of (tables c) (name s) = Some t"
    and "\<forall>r\<in>set (rows t). rid r \<noteq> i"
  shows "get_by_id s c i = (Inl TypeError, c)"
  using assms(1) get_by_id_db_missing [OF assms(2,3)]
  by (cases c) (simp add: get_by_id_def)

theorem get_by_id_missing_row_witness:
  "\<not> aborted demo_conn \<and> get_by_id demo_store demo_conn 2 = (Inl TypeError, demo_conn)"
  using get_by_id_missing_row [of demo_conn demo_store
      "\<lparr>rows = [\<lparr>rid = 1, rvals = paper_row paper_a None\<rparr>], serial = 1\<rparr>" 2]
  by (simp add: demo_conn_def demo_store_def)

section \<open>Iteration\<close>

lemma tables_ok_readable: "tables_ok c n \<Longrightarrow> readable c n"
  by (auto simp: tables_ok_def readable_def ids_ok_def split: option.splits)

lemma yield_each_all:
  assumes "\<forall>d\<in>set ds. \<exists>p. y d = Inr p"
  shows "\<exists>ps. yield_each y ds = map Inr ps \<and> length ps = length ds \<and>
    (\<forall>j<length ds. y (ds ! j) = Inr (ps ! j))"
  using assms
proof (induction ds)
  case Nil
  then show ?case by simp
next
  case (Cons d ds)
  then obtain p ps where p: "y d = Inr p" and ps: "yield_each y ds = map Inr ps"
      "length ps = length ds" "\<forall>j<length ds. y (ds ! j) = Inr (ps ! j)"
    by auto
  have "\<forall>j<length (d # ds). y ((d # ds) ! j) = Inr ((p # ps) ! j)"
    using p ps(3) by (auto simp: nth_Cons split: nat.splits)
  then show ?case
    using p ps(1,2) by (intro exI [of _ "p # ps"]) simp
qed

lemma no_error_in_papers: "\<not> list_ex (\<lambda>r. r = Inl e) (map Inr ps)"
  by (auto simp: list_ex_iff)

text \<open>
  C7. On tables that can be read (\<open>readable\<close>), \<^verbatim>\<open>__iter__\<close> yields one Paper for each row of the table, in the
  order of the rows, and the Paper it yields for a row is the one \<^verbatim>\<open>__get_by_id\<close> returns
  for the identifier of that row (both decode the tuple with \<^verbatim>\<open>_yield_paper\<close>). The
  connection is left as it was, and a second iteration yields the same sequence.
\<close>

theorem iter_yields_each_row:
  assumes "\<not> aborted c" and "cols s = columns" and "readable c (name s)"
    and "map_of (tables c) (name s) = Some tp"
  shows "\<exists>ps. iter s c = (map Inr ps, c) \<and> length ps = length (rows tp) \<and>
    (\<forall>j<length ps. get_by_id s c (rid (rows tp ! j)) = (Inr (ps ! j), c)) \<and>
    iter s (snd (iter s c)) = iter s c"
proof -
  obtain tc where t: "map_of (tables c) (name s) = Some tp"
      "map_of (tables c) (name s @ ''_citations'') = Some tc"
      "distinct (map rid (rows tp))" "distinct (map rid (rows tc))" "null_citations tc"
      "list_all (refs_ok tc) (rows tp)"
    using assms(3,4) by (auto simp: readable_def split: option.splits)
  let ?y = "\<lambda>d. yield_paper (tables c) s (Some d)"
  have "\<forall>d\<in>set (map tuple_of (rows tp)). \<exists>p. ?y d = Inr p"
  proof
    fix d assume "d \<in> set (map tuple_of (rows tp))"
    then obtain r where r: "r \<in> set (rows tp)" "d = tuple_of r" by auto
    then have "refs_ok tc r" using t(6) by (simp add: list_all_iff)
    from yield_paper_row [OF t(2) assms(2) t(4,5) this] show "\<exists>p. ?y d = Inr p"
      using r(2) by blast
  qed
  from yield_each_all [OF this]
  obtain ps where ps: "yield_each ?y (map tuple_of (rows tp)) = map Inr ps"
      "length ps = length (rows tp)"
      "\<forall>j<length (rows tp). ?y (map tuple_of (rows tp) ! j) = Inr (ps ! j)"
    by auto
  have it: "iter s c = (map Inr ps, c)"
    using assms(1) t(1) ps(1)
    by (simp add: iter_def fetch_all_def Let_def no_error_in_papers commit_clean)
  have "get_by_id s c (rid (rows tp ! j)) = (Inr (ps ! j), c)" if "j < length ps" for j
  proof -
    have j: "j < length (rows tp)" using that ps(2) by simp
    then have "fetch_by_id (tables c) (name s) (rid (rows tp ! j)) = Inr (Some (tuple_of (rows tp ! j)))"
      using t(1,3) by (simp add: fetch_by_id_def find_by_id)
    moreover have "?y (tuple_of (rows tp ! j)) = Inr (ps ! j)"
      using ps(3) j by simp
    ultimately show ?thesis
      using assms(1) by (simp add: get_by_id_def get_by_id_db.simps)
  qed
  then show ?thesis using it ps(2) by simp
qed

section \<open>What append does with well-typed Papers\<close>

lemma execute_insert_new:
  assumes "\<not> aborted c" and "map_of (tables c) tn = Some t"
    and "list_all (\<lambda>kv. fst kv \<in> set (tl columns)) vals" and "read_vals c vals = Inr stored"
    and "serial t < 2147483647" and "bounded t"
    and "clash_cols (rows t) (row_of stored) = []"
  shows "execute_insert c tn vals =
    (Inr (serial t + 1),
     c\<lparr>tables := AList.update tn
        \<lparr>rows = put (place c tn t) \<lparr>rid = serial t + 1, rvals = row_of stored\<rparr> (rows t),
         serial = serial t + 1\<rparr> (tables c)\<rparr>)"
  using assms by (simp add: execute_insert_def find_conflict_fresh bounded_rows Let_def)

lemma execute_insert_dup:
  assumes "\<not> aborted c" and "map_of (tables c) tn = Some t"
    and "list_all (\<lambda>kv. fst kv \<in> set (tl columns)) vals" and "read_vals c vals = Inr stored"
    and "serial t < 2147483647" and "bounded t"
    and "clash_cols (rows t) (row_of stored) = k # ks"
  shows "execute_insert c tn vals =
    (Inl (IntegrityError (violation_message tn k (row_of stored k))),
     c\<lparr>tables := AList.update tn (t\<lparr>serial := serial t + 1\<rparr>) (tables c), aborted := True\<rparr>)"
  using assms by (simp add: execute_insert_def find_conflict_fresh bounded_rows Let_def)

lemma citation_phase_valid:
  assumes "\<not> aborted c" and "map_of (tables c) (name s @ ''_citations'') = Some tc"
    and "bounded tc" and "plain_name (name s)"
    and "case citations obj of None \<Rightarrow> True | Some cs \<Rightarrow> list_all well_typed cs"
    and "room tc obj"
  shows "citation_phase s c obj =
    (Inr (fst (cit_result (place c (name s @ ''_citations'')) tc obj)),
     c\<lparr>tables := AList.update (name s @ ''_citations'') (snd (cit_result (place c (name s @ ''_citations'')) tc obj)) (tables c)\<rparr>)"
proof (cases "citations obj")
  case None
  then show ?thesis using assms(2) by (simp add: citation_phase_def cit_result_def update_triv)
next
  case (Some cs)
  then have "list_all well_typed cs" "serial tc + int (length cs) \<le> 2147483647"
    using assms(5,6) by (simp_all add: room_def)
  from insert_citations_steps [OF assms(1,2,3) plain_name_citations [OF assms(4)] this, of "[]"]
  show ?thesis
    using Some by (simp add: citation_phase_def cit_result_def)
qed

lemma cit_result_ids:
  fixes s :: store and c :: conn
  assumes "\<not> aborted c" and "map_of (tables c) (name s @ ''_citations'') = Some tc"
    and "bounded tc" and "plain_name (name s)"
    and "case citations obj of None \<Rightarrow> True | Some cs \<Rightarrow> list_all well_typed cs"
    and "room tc obj"
  shows "kept tc (snd (cit_result (place c (name s @ ''_citations'')) tc obj))"
    and "case fst (cit_result (place c (name s @ ''_citations'')) tc obj) of
           None \<Rightarrow> citations obj = None
         | Some l \<Rightarrow> (\<exists>cs. citations obj = Some cs \<and> length l = length cs \<and>
             list_all (has_id (snd (cit_result (place c (name s @ ''_citations'')) tc obj))) l \<and>
             list_all2 (stands (snd (cit_result (place c (name s @ ''_citations'')) tc obj))) l cs)"
    and "case fst (cit_result (place c (name s @ ''_citations'')) tc obj) of None \<Rightarrow> True | Some l \<Rightarrow> list_all int4 l"
proof -
  let ?ids = "fst (cit_result (place c (name s @ ''_citations'')) tc obj)" and ?tc = "snd (cit_result (place c (name s @ ''_citations'')) tc obj)"
  note cp = citation_phase_valid [OF assms]
  from citation_phase_keeps [OF assms(2,3,4) cp]
  obtain tc' where t: "AList.update (name s @ ''_citations'') ?tc (tables c) =
        AList.update (name s @ ''_citations'') tc' (tables c)" "kept tc tc'"
      "case ?ids of
          None \<Rightarrow> citations obj = None
        | Some l \<Rightarrow>
            (\<exists>cs. citations obj = Some cs \<and>
               list_all (has_id tc') l \<and> length l = length cs \<and>
               (list_all well_typed cs \<longrightarrow> list_all2 (stands tc') l cs))"
    by (auto split: option.splits)
  have "map_of (AList.update (name s @ ''_citations'') ?tc (tables c)) (name s @ ''_citations'') =
      map_of (AList.update (name s @ ''_citations'') tc' (tables c)) (name s @ ''_citations'')"
    using t(1) by simp
  then have eq: "tc' = ?tc" by (simp add: update_conv')
  show "kept tc ?tc" using t(2) eq by simp
  show 2: "case ?ids of
           None \<Rightarrow> citations obj = None
         | Some l \<Rightarrow> (\<exists>cs. citations obj = Some cs \<and> length l = length cs \<and>
             list_all (has_id ?tc) l \<and> list_all2 (stands ?tc) l cs)"
    using t(3) assms(5) unfolding eq by (auto split: option.splits)
  have "bounded ?tc" using t(2) eq by (simp add: kept_def)
  then show "case ?ids of None \<Rightarrow> True | Some l \<Rightarrow> list_all int4 l"
    using 2 has_id_int4 [of ?tc] by (auto simp: list_all_iff split: option.splits)
qed

lemma all_typedD:
  assumes "all_typed obj"
  shows "well_typed obj" and "case citations obj of None \<Rightarrow> True | Some cs \<Rightarrow> list_all well_typed cs"
  using assms by (simp_all add: all_typed_def)

lemma append_new:
  assumes "\<not> aborted c" and "map_of (tables c) (name s) = Some tp"
    and "map_of (tables c) (name s @ ''_citations'') = Some tc"
    and "bounded tp" and "bounded tc" and "plain_name (name s)"
    and "all_typed obj" and "room tc obj" and "serial tp < 2147483647"
    and "clash_cols (rows tp) (field obj) = []"
  shows "append s c obj complain =
    (Inr (), s\<lparr>rowIds := rowIds s @ [serial tp + 1]\<rparr>,
     c\<lparr>tables := AList.update (name s)
        \<lparr>rows = put (place c (name s) tp)
           \<lparr>rid = serial tp + 1, rvals = paper_row obj (fst (cit_result (place c (name s @ ''_citations'')) tc obj))\<rparr> (rows tp),
         serial = serial tp + 1\<rparr>
        (AList.update (name s @ ''_citations'') (snd (cit_result (place c (name s @ ''_citations'')) tc obj)) (tables c))\<rparr>)"
proof -
  let ?ids = "fst (cit_result (place c (name s @ ''_citations'')) tc obj)"
  let ?c1 = "c\<lparr>tables := AList.update (name s @ ''_citations'')
      (snd (cit_result (place c (name s @ ''_citations'')) tc obj)) (tables c)\<rparr>"
  note ty = all_typedD [OF assms(7)]
  note cp = citation_phase_valid [OF assms(1,3,5,6) ty(2) assms(8)]
  note i4 = cit_result_ids(3) [OF assms(1,3,5,6) ty(2) assms(8)]
  have c1: "\<not> aborted ?c1" "map_of (tables ?c1) (name s) = Some tp"
    using assms(1,2) by (simp_all add: update_conv')
  have rd: "read_vals ?c1 (paper_vals obj ?ids) = Inr (paper_vals obj ?ids)"
    using read_paper_vals_typed [OF ty(1) i4] .
  have cl: "clash_cols (rows tp) (row_of (paper_vals obj ?ids)) = []"
    using assms(10) by (simp add: row_of_paper_vals clash_cols_paper_row)
  have "execute_insert ?c1 (name s) (paper_vals obj ?ids) =
    (Inr (serial tp + 1),
     ?c1\<lparr>tables := AList.update (name s)
        \<lparr>rows = put (place ?c1 (name s) tp) \<lparr>rid = serial tp + 1, rvals = row_of (paper_vals obj ?ids)\<rparr> (rows tp),
         serial = serial tp + 1\<rparr> (tables ?c1)\<rparr>)"
    using c1 keys_paper_vals rd assms(9,4) cl by (rule execute_insert_new)
  then show ?thesis
    using assms(1) by (simp add: append_def cp commit_def row_of_paper_vals)
qed


section \<open>A run of two appends\<close>

lemma unique_vals:
  "scalar_row f ''uri'' = f ''uri''" "scalar_row f ''doi'' = f ''doi''"
  "scalar_row f ''pmid'' = f ''pmid''" "scalar_row f ''wosid'' = f ''wosid''"
  "scalar_row f ''eid'' = f ''eid''"
  by (simp_all add: scalar_row_def scalar_fields_def columns_def)

lemma unique_vals_paper:
  "paper_row p ids ''uri'' = field p ''uri''" "paper_row p ids ''doi'' = field p ''doi''"
  "paper_row p ids ''pmid'' = field p ''pmid''" "paper_row p ids ''wosid'' = field p ''wosid''"
  "paper_row p ids ''eid'' = field p ''eid''"
  by (simp_all add: paper_row_def unique_vals)

lemma well_typed_demo:
  "well_typed paper_a" "well_typed paper_b" "well_typed paper_b'" "well_typed paper_c"
  "well_typed paper_d" "well_typed paper_e" "well_typed paper_x"
  by (simp_all add: well_typed_def paper_a_def paper_b_def paper_b'_def paper_c_def paper_d_def
      paper_e_def paper_x_def scalar_fields_def columns_def column_type_def plain_text_def)

lemma all_typed_demo:
  "all_typed paper_a" "all_typed paper_c" "all_typed paper_e" "all_typed paper_x"
  using well_typed_demo
  by (simp_all add: all_typed_def paper_a_def paper_c_def paper_e_def paper_x_def)

lemma citations_demo:
  "citations paper_a = None" "citations paper_c = Some [paper_b]"
  "citations paper_e = Some [paper_b, paper_d]" "citations paper_x = Some [paper_b']"
  by (simp_all add: paper_a_def paper_c_def paper_e_def paper_x_def)

lemma demo_cit1: "cit_result (\<lambda>t. length (rows t)) \<lparr>rows = [], serial = 0\<rparr> paper_c = (Some [1], demo_citations1)"
  by (simp add: cit_result_def dedup_step_def clash_cols_def paper_c_def demo_citations1_def put_def)

lemma demo_cit2: "cit_result (\<lambda>t. length (rows t)) demo_citations1 paper_e = (Some [1, 3], demo_citations2)"
  by (simp add: cit_result_def dedup_step_def clash_cols_def paper_e_def paper_b_def paper_d_def
      demo_citations1_def demo_citations2_def unique_cols_def unique_vals put_def)

lemma demo_append1:
  "append (fresh_store demo_uuid) (fresh_conn demo_uuid) paper_c True =
    (Inr (), demo_store1, demo_conn1)"
proof -
  let ?e = "\<lparr>rows = [], serial = 0\<rparr> :: table"
  have "append (fresh_store demo_uuid) (fresh_conn demo_uuid) paper_c True =
    (Inr (), fresh_store demo_uuid\<lparr>rowIds := rowIds (fresh_store demo_uuid) @ [serial ?e + 1]\<rparr>,
     fresh_conn demo_uuid\<lparr>tables := AList.update (name (fresh_store demo_uuid))
        \<lparr>rows = put (place (fresh_conn demo_uuid) (name (fresh_store demo_uuid)) ?e)
            \<lparr>rid = serial ?e + 1,
              rvals = paper_row paper_c (fst (cit_result (place (fresh_conn demo_uuid) (name (fresh_store demo_uuid) @ ''_citations'')) ?e paper_c))\<rparr>
            (rows ?e),
         serial = serial ?e + 1\<rparr>
        (AList.update (name (fresh_store demo_uuid) @ ''_citations'')
           (snd (cit_result (place (fresh_conn demo_uuid) (name (fresh_store demo_uuid) @ ''_citations'')) ?e paper_c)) (tables (fresh_conn demo_uuid)))\<rparr>)"
    by (rule append_new)
       (simp_all add: fresh_conn_def fresh_store_def bounded_def plain_name_fresh plain_demo_uuid
          clash_cols_def all_typed_demo room_def citations_demo)
  moreover have "place (fresh_conn demo_uuid) = (\<lambda>n t. length (rows t))" by (simp add: fresh_conn_def)
  ultimately show ?thesis
    by (simp add: demo_cit1 demo_conn1_def demo_papers1_def fresh_conn_def fresh_store_def
        demo_store1_def put_def)
qed

lemma demo_append2:
  "append demo_store1 demo_conn1 paper_e b = (Inr (), demo_store2, demo_conn2)"
proof -
  have "append demo_store1 demo_conn1 paper_e b =
    (Inr (), demo_store1\<lparr>rowIds := rowIds demo_store1 @ [serial demo_papers1 + 1]\<rparr>,
     demo_conn1\<lparr>tables := AList.update (name demo_store1)
        \<lparr>rows = put (place demo_conn1 (name demo_store1) demo_papers1)
            \<lparr>rid = serial demo_papers1 + 1,
              rvals = paper_row paper_e (fst (cit_result (place demo_conn1 (name demo_store1 @ ''_citations'')) demo_citations1 paper_e))\<rparr>
            (rows demo_papers1),
         serial = serial demo_papers1 + 1\<rparr>
        (AList.update (name demo_store1 @ ''_citations'')
           (snd (cit_result (place demo_conn1 (name demo_store1 @ ''_citations'')) demo_citations1 paper_e)) (tables demo_conn1))\<rparr>)"
  proof (rule append_new)
    show "clash_cols (rows demo_papers1) (field paper_e) = []"
      by (simp add: clash_cols_def demo_papers1_def unique_cols_def unique_vals_paper
          paper_e_def paper_c_def)
  qed (simp_all add: demo_conn1_def demo_store1_def bounded_def plain_name_fresh plain_demo_uuid
          demo_papers1_def demo_citations1_def all_typed_demo room_def citations_demo)
  moreover have "place demo_conn1 = (\<lambda>n t. length (rows t))" by (simp add: demo_conn1_def)
  ultimately show ?thesis
    by (simp add: demo_cit2 demo_conn1_def demo_conn2_def demo_papers1_def demo_papers2_def
        demo_store1_def demo_store2_def put_def)
qed

lemma demo_appends:
  "appends (fresh_store demo_uuid) (fresh_conn demo_uuid) [(paper_c, True), (paper_e, False)] =
     (demo_store2, demo_conn2)"
  by (simp add: demo_append1 demo_append2)

lemma demo_tables_ok: "tables_ok demo_conn2 (name demo_store2)"
proof -
  have "plain_name (name (fresh_store demo_uuid))"
    by (simp add: fresh_store_def plain_name_fresh plain_demo_uuid)
  from appends_ok [OF init_fresh_tables_ok [OF init_fresh_empty] this demo_appends]
  show ?thesis by blast
qed

theorem citation_rows_have_no_citations_witness:
  "init_fresh empty_conn demo_uuid = (Inr (fresh_store demo_uuid), fresh_conn demo_uuid) \<and>
   plain_name demo_uuid \<and>
   appends (fresh_store demo_uuid) (fresh_conn demo_uuid) [(paper_c, True), (paper_e, False)] =
     (demo_store2, demo_conn2) \<and>
   map_of (tables demo_conn2) (fresh_name demo_uuid @ ''_citations'') = Some demo_citations2 \<and>
   null_citations demo_citations2"
proof -
  have t: "map_of (tables demo_conn2) (name demo_store2 @ ''_citations'') = Some demo_citations2"
    by (simp add: demo_conn2_def demo_store2_def)
  from citation_rows_have_no_citations [OF init_fresh_empty plain_demo_uuid demo_appends]
  have "null_citations demo_citations2"
    using t by auto
  then show ?thesis
    using init_fresh_empty plain_demo_uuid demo_appends t by (simp add: demo_store2_def)
qed

theorem iter_yields_each_row_witness:
  "\<not> aborted demo_conn2 \<and>
   (\<exists>ps. iter demo_store2 demo_conn2 = (map Inr ps, demo_conn2) \<and>
          length ps = 2 \<and>
          get_by_id demo_store2 demo_conn2 2 = (Inr (ps ! 1), demo_conn2))"
proof -
  have ok: "readable demo_conn2 (name demo_store2)"
    using demo_tables_ok by (rule tables_ok_readable)
  have na: "\<not> aborted demo_conn2" by (simp add: demo_conn2_def)
  have cs: "cols demo_store2 = columns" by (simp add: demo_store2_def)
  have tp: "map_of (tables demo_conn2) (name demo_store2) = Some demo_papers2"
    by (simp add: demo_conn2_def demo_store2_def)
  from iter_yields_each_row [OF na cs ok tp]
  obtain ps where ps: "iter demo_store2 demo_conn2 = (map Inr ps, demo_conn2)"
    "length ps = length (rows demo_papers2)"
    "\<forall>j<length ps. get_by_id demo_store2 demo_conn2 (rid (rows demo_papers2 ! j)) =
        (Inr (ps ! j), demo_conn2)"
    by auto
  have l: "length ps = 2" using ps(2) by (simp add: demo_papers2_def)
  then have "get_by_id demo_store2 demo_conn2 (rid (rows demo_papers2 ! 1)) = (Inr (ps ! 1), demo_conn2)"
    using ps(3) by simp
  then have "get_by_id demo_store2 demo_conn2 2 = (Inr (ps ! 1), demo_conn2)"
    by (simp add: demo_papers2_def)
  then show ?thesis using na ps(1) l by blast
qed

section \<open>Duplicate Papers\<close>

lemma execute_insert_returned:
  assumes "execute_insert c tn vals = (Inr i, c')"
  shows "\<exists>t stored. \<not> aborted c \<and> map_of (tables c) tn = Some t \<and> read_vals c vals = Inr stored \<and>
    i = serial t + 1 \<and>
    c' = c\<lparr>tables := AList.update tn
        \<lparr>rows = put (place c tn t) \<lparr>rid = i, rvals = row_of stored\<rparr> (rows t), serial = i\<rparr>
        (tables c)\<rparr>"
  using assms
  by (auto simp: execute_insert_def Let_def split: if_splits option.splits sum.splits)

text \<open>
  A well-typed Paper that shares the value of a unique column with a stored row is one
  whose insert the server answers by the violation of a unique index, outside an aborted
  transaction and while the sequences last.
\<close>

lemma duplicate_key_violates:
  assumes "\<not> aborted c" and "map_of (tables c) (name s) = Some tp"
    and "map_of (tables c) (name s @ ''_citations'') = Some tc"
    and "bounded tp" and "bounded tc" and "plain_name (name s)"
    and "all_typed obj" and "room tc obj" and "serial tp < 2147483647"
    and "r \<in> set (rows tp)" and "clash (field obj) r"
  shows "\<exists>cit_ids c1 msg c2. citation_phase s c obj = (Inr cit_ids, c1) \<and>
    execute_insert c1 (name s) (paper_vals obj cit_ids) = (Inl (IntegrityError msg), c2)"
proof -
  let ?ids = "fst (cit_result (place c (name s @ ''_citations'')) tc obj)"
  let ?c1 = "c\<lparr>tables := AList.update (name s @ ''_citations'')
      (snd (cit_result (place c (name s @ ''_citations'')) tc obj)) (tables c)\<rparr>"
  note ty = all_typedD [OF assms(7)]
  note cp = citation_phase_valid [OF assms(1,3,5,6) ty(2) assms(8)]
  note i4 = cit_result_ids(3) [OF assms(1,3,5,6) ty(2) assms(8)]
  have c1: "\<not> aborted ?c1" "map_of (tables ?c1) (name s) = Some tp"
    using assms(1,2) by (simp_all add: update_conv')
  have rd: "read_vals ?c1 (paper_vals obj ?ids) = Inr (paper_vals obj ?ids)"
    using read_paper_vals_typed [OF ty(1) i4] .
  have "clash_cols (rows tp) (field obj) \<noteq> []"
    using assms(10,11) by (auto simp: clash_cols_Nil)
  then obtain k ks where cl: "clash_cols (rows tp) (row_of (paper_vals obj ?ids)) = k # ks"
    by (auto simp: row_of_paper_vals clash_cols_paper_row neq_Nil_conv)
  from execute_insert_dup [OF c1 keys_paper_vals rd assms(9,4) cl] cp
  show ?thesis by blast
qed

text \<open>
  C3. A Paper whose insert into the table of the Papers is answered by the violation of
  a unique index (the server's \<^verbatim>\<open>IntegrityError\<close>, with its message): with \<^verbatim>\<open>complain=True\<close>
  the call commits, which ends the aborted transaction and changes no table, and raises
  \<^verbatim>\<open>ValueError('Paper already exists: ...')\<close>; with \<^verbatim>\<open>complain=False\<close> it returns without
  raising (and leaves the transaction aborted). In both cases the store, and so the list of
  its identifiers, is what it was.
\<close>

theorem append_duplicate:
  assumes "citation_phase s c obj = (Inr cit_ids, c1)"
    and "execute_insert c1 (name s) (paper_vals obj cit_ids) = (Inl (IntegrityError msg), c2)"
  shows "append s c obj True = (Inl (ValueError (''Paper already exists: '' @ msg)), s, commit c2) \<and>
    aborted c2 \<and> \<not> aborted (commit c2) \<and> tables (commit c2) = tables c2 \<and>
    append s c obj False = (Inr (), s, c2)"
  using assms execute_insert_failed [OF assms(2)]
  by (simp add: append_def commit_def)

lemma demo_duplicate:
  "citation_phase demo_store demo_conn paper_a = (Inr None, demo_conn)"
  "execute_insert demo_conn (name demo_store) (paper_vals paper_a None) =
     (Inl (IntegrityError demo_msg), demo_dup_conn)"
proof -
  show "citation_phase demo_store demo_conn paper_a = (Inr None, demo_conn)"
    by (simp add: citation_phase_def citations_demo)
  let ?t = "\<lparr>rows = [\<lparr>rid = 1, rvals = paper_row paper_a None\<rparr>], serial = 1\<rparr>"
  have rd: "read_vals demo_conn (paper_vals paper_a None) = Inr (paper_vals paper_a None)"
    by (rule read_paper_vals_typed) (simp_all add: well_typed_demo)
  have cl: "clash_cols (rows ?t) (row_of (paper_vals paper_a None)) = [''doi'']"
    by (simp add: row_of_paper_vals clash_cols_def unique_cols_def unique_vals_paper paper_a_def)
  have "execute_insert demo_conn ''t'' (paper_vals paper_a None) =
    (Inl (IntegrityError (violation_message ''t'' ''doi'' (row_of (paper_vals paper_a None) ''doi''))),
     demo_conn\<lparr>tables := AList.update ''t'' (?t\<lparr>serial := serial ?t + 1\<rparr>) (tables demo_conn),
       aborted := True\<rparr>)"
    by (rule execute_insert_dup [OF _ _ keys_paper_vals rd _ _ cl])
       (simp_all add: demo_conn_def bounded_def)
  moreover have "row_of (paper_vals paper_a None) ''doi'' = Text ''10.1/a''"
    by (simp add: row_of_paper_vals unique_vals_paper paper_a_def)
  ultimately show "execute_insert demo_conn (name demo_store) (paper_vals paper_a None) =
     (Inl (IntegrityError demo_msg), demo_dup_conn)"
    by (simp add: demo_msg_def demo_dup_conn_def demo_conn_def demo_store_def)
qed

theorem append_duplicate_witness:
  "citation_phase demo_store demo_conn paper_a = (Inr None, demo_conn) \<and>
   execute_insert demo_conn (name demo_store) (paper_vals paper_a None) =
     (Inl (IntegrityError demo_msg), demo_dup_conn) \<and>
   append demo_store demo_conn paper_a True =
     (Inl (ValueError (''Paper already exists: '' @ demo_msg)), demo_store, commit demo_dup_conn) \<and>
   aborted demo_dup_conn \<and> \<not> aborted (commit demo_dup_conn) \<and>
   append demo_store demo_conn paper_a False = (Inr (), demo_store, demo_dup_conn)"
  using append_duplicate [OF demo_duplicate] demo_duplicate by simp

section \<open>The cell of the citations\<close>

text \<open>
  C6. A call of \<^verbatim>\<open>append\<close> that has returned and added the identifier \<open>i\<close> to the store
  has written a row with that identifier. When the Paper's \<^verbatim>\<open>citations\<close> is \<^verbatim>\<open>None\<close>, the
  loop is not entered (\<^verbatim>\<open>cit_ids\<close> is \<^verbatim>\<open>None\<close>, the connection and the citation table are
  untouched) and the cell \<^verbatim>\<open>citations\<close> of the row is NULL, not an empty list. When it is a
  list, the cell is the list of identifiers the loop over the citations has accumulated:
  one for each citation, in their order, each the identifier of a row of the citation
  table; and for well-typed citations each stands for its citation (the row has the
  fields of the citation, or holds one of its natural keys).
\<close>

theorem append_citations_cell:
  assumes "append s c obj b = (Inr (), s', c')" and "rowIds s' = rowIds s @ [i]"
    and "map_of (tables c) (name s @ ''_citations'') = Some tc" and "bounded tc"
    and "plain_name (name s)"
  shows "\<exists>tp' tc' r. map_of (tables c') (name s) = Some tp' \<and>
    map_of (tables c') (name s @ ''_citations'') = Some tc' \<and> r \<in> set (rows tp') \<and> rid r = i \<and>
    (case citations obj of
       None \<Rightarrow>
         rvals r ''citations'' = Null \<and> citation_phase s c obj = (Inr None, c) \<and> tc' = tc
     | Some cs \<Rightarrow>
         (\<exists>ids c1. insert_citations c (name s @ ''_citations'') cs [] = (Inr ids, c1) \<and>
            rvals r ''citations'' = Ints ids \<and> length ids = length cs \<and>
            list_all (has_id tc') ids \<and>
            (list_all well_typed cs \<longrightarrow> list_all2 (stands tc') ids cs)))"
proof -
  let ?n = "name s" and ?cn = "name s @ ''_citations''"
  obtain r1 c1 where cp: "citation_phase s c obj = (r1, c1)"
    by (cases "citation_phase s c obj")
  obtain ids where r1: "r1 = Inr ids"
    using assms(1) cp by (cases r1) (auto simp: append_def)
  obtain r2 c2 where ei: "execute_insert c1 ?n (paper_vals obj ids) = (r2, c2)"
    by (cases "execute_insert c1 ?n (paper_vals obj ids)")
  have ne: "rowIds s @ [i] \<noteq> rowIds s" by simp
  have "r2 = Inr i \<and> c' = commit c2"
  proof (cases r2)
    case (Inl e)
    then have "s' = s"
      using assms(1) by (cases e) (auto simp: append_def cp r1 ei split: if_splits)
    then show ?thesis using assms(2) by simp
  next
    case (Inr j)
    then have "s' = s\<lparr>rowIds := rowIds s @ [j]\<rparr>" "c' = commit c2"
      using assms(1) by (simp_all add: append_def cp r1 ei)
    then show ?thesis using assms(2) Inr by simp
  qed
  then have r2: "execute_insert c1 ?n (paper_vals obj ids) = (Inr i, c2)" and c': "c' = commit c2"
    using ei by simp_all
  from citation_phase_keeps [OF assms(3,4,5) cp]
  obtain tc' where tc': "tables c1 = AList.update ?cn tc' (tables c)" "kept tc tc'"
    and ids: "case ids of
          None \<Rightarrow> citations obj = None \<and> c1 = c
        | Some l \<Rightarrow>
            (\<exists>cs. citations obj = Some cs \<and> insert_citations c ?cn cs [] = (Inr l, c1) \<and>
               list_all (has_id tc') l \<and> length l = length cs \<and>
               (list_all well_typed cs \<longrightarrow> list_all2 (stands tc') l cs))"
    using r1 by blast
  have btc': "bounded tc'" using tc'(2) by (simp add: kept_def)
  have i4: "case ids of None \<Rightarrow> True | Some l \<Rightarrow> list_all int4 l"
    using ids has_id_int4 [OF btc'] by (auto simp: list_all_iff split: option.splits)
  from execute_insert_returned [OF r2]
  obtain t stored where ins: "map_of (tables c1) ?n = Some t"
      "read_vals c1 (paper_vals obj ids) = Inr stored"
      "c2 = c1\<lparr>tables := AList.update ?n
        \<lparr>rows = put (place c1 ?n t) \<lparr>rid = i, rvals = row_of stored\<rparr> (rows t), serial = i\<rparr>
        (tables c1)\<rparr>"
    by blast
  let ?r = "\<lparr>rid = i, rvals = row_of stored\<rparr>"
  let ?tp' = "\<lparr>rows = put (place c1 ?n t) ?r (rows t), serial = i\<rparr>"
  have cell: "rvals ?r ''citations'' = cit_cell ids"
    using read_paper_vals_citations [OF ins(2) i4] by simp
  have tabs: "map_of (tables c') ?n = Some ?tp'" "map_of (tables c') ?cn = Some tc'"
    by (simp_all add: c' commit_def ins(3) update_conv' tc'(1))
  have same: "tc' = tc" if "ids = None"
  proof -
    have "c1 = c" using ids that by simp
    then have "map_of (tables c) ?cn = Some tc'"
      using tc'(1) by (metis update_conv' map_of_eq_Some_iff fun_upd_same)
    then show ?thesis using assms(3) by simp
  qed
  have "case citations obj of
       None \<Rightarrow>
         rvals ?r ''citations'' = Null \<and> citation_phase s c obj = (Inr None, c) \<and> tc' = tc
     | Some cs \<Rightarrow>
         (\<exists>ids c1. insert_citations c ?cn cs [] = (Inr ids, c1) \<and>
            rvals ?r ''citations'' = Ints ids \<and> length ids = length cs \<and>
            list_all (has_id tc') ids \<and>
            (list_all well_typed cs \<longrightarrow> list_all2 (stands tc') ids cs))"
  proof (cases ids)
    case None
    then show ?thesis
      using ids same cell cp r1 by (simp add: cit_cell_def)
  next
    case (Some l)
    then show ?thesis
      using ids cell by (auto simp: cit_cell_def)
  qed
  moreover have "?r \<in> set (rows ?tp')" by (simp add: set_put)
  ultimately show ?thesis
    using tabs by (intro exI [of _ ?tp'] exI [of _ tc'] exI [of _ ?r]) simp
qed

lemma demo_append3:
  "append demo_store1 demo_conn1 paper_a b = (Inr (), demo_store2, demo_conn3)"
proof -
  have "append demo_store1 demo_conn1 paper_a b =
    (Inr (), demo_store1\<lparr>rowIds := rowIds demo_store1 @ [serial demo_papers1 + 1]\<rparr>,
     demo_conn1\<lparr>tables := AList.update (name demo_store1)
        \<lparr>rows = put (place demo_conn1 (name demo_store1) demo_papers1)
            \<lparr>rid = serial demo_papers1 + 1,
              rvals = paper_row paper_a (fst (cit_result (place demo_conn1 (name demo_store1 @ ''_citations'')) demo_citations1 paper_a))\<rparr>
            (rows demo_papers1),
         serial = serial demo_papers1 + 1\<rparr>
        (AList.update (name demo_store1 @ ''_citations'')
           (snd (cit_result (place demo_conn1 (name demo_store1 @ ''_citations'')) demo_citations1 paper_a)) (tables demo_conn1))\<rparr>)"
  proof (rule append_new)
    show "clash_cols (rows demo_papers1) (field paper_a) = []"
      by (simp add: clash_cols_def demo_papers1_def unique_cols_def unique_vals_paper
          paper_a_def paper_c_def)
  qed (simp_all add: demo_conn1_def demo_store1_def bounded_def plain_name_fresh plain_demo_uuid
          demo_papers1_def demo_citations1_def all_typed_demo room_def citations_demo)
  moreover have "place demo_conn1 = (\<lambda>n t. length (rows t))" by (simp add: demo_conn1_def)
  moreover have "cit_result (\<lambda>t. length (rows t)) demo_citations1 paper_a = (None, demo_citations1)"
    by (simp add: cit_result_def citations_demo)
  ultimately show ?thesis
    by (simp add: demo_conn1_def demo_conn3_def demo_papers1_def demo_papers3_def
        demo_store1_def demo_store2_def put_def)
qed

theorem append_citations_cell_witness:
  "append demo_store1 demo_conn1 paper_a True = (Inr (), demo_store2, demo_conn3) \<and>
   append demo_store1 demo_conn1 paper_e True = (Inr (), demo_store2, demo_conn2) \<and>
   rowIds demo_store2 = rowIds demo_store1 @ [2] \<and>
   map_of (tables demo_conn1) (name demo_store1 @ ''_citations'') = Some demo_citations1 \<and>
   bounded demo_citations1 \<and> plain_name (name demo_store1) \<and>
   (\<exists>tp' r. map_of (tables demo_conn3) (name demo_store1) = Some tp' \<and>
      map_of (tables demo_conn3) (name demo_store1 @ ''_citations'') = Some demo_citations1 \<and>
      r \<in> set (rows tp') \<and> rid r = 2 \<and> rvals r ''citations'' = Null \<and>
      citation_phase demo_store1 demo_conn1 paper_a = (Inr None, demo_conn1)) \<and>
   (\<exists>tp' tc' r ids c1. map_of (tables demo_conn2) (name demo_store1) = Some tp' \<and>
      map_of (tables demo_conn2) (name demo_store1 @ ''_citations'') = Some tc' \<and>
      r \<in> set (rows tp') \<and> rid r = 2 \<and>
      insert_citations demo_conn1 (name demo_store1 @ ''_citations'') [paper_b, paper_d] [] =
        (Inr ids, c1) \<and>
      rvals r ''citations'' = Ints ids \<and> length ids = 2 \<and> list_all (has_id tc') ids \<and>
      list_all2 (stands tc') ids [paper_b, paper_d])"
proof -
  have v: "rowIds demo_store2 = rowIds demo_store1 @ [2]"
    "map_of (tables demo_conn1) (name demo_store1 @ ''_citations'') = Some demo_citations1"
    "bounded demo_citations1" "plain_name (name demo_store1)"
    by (simp_all add: demo_store1_def demo_store2_def demo_conn1_def demo_citations1_def
        bounded_def plain_name_fresh plain_demo_uuid)
  have ty: "list_all well_typed [paper_b, paper_d]" using well_typed_demo by simp
  have l: "length [paper_b, paper_d] = 2" by simp
  note f1 = append_citations_cell [OF demo_append3 [of True] v, unfolded citations_demo option.case]
  note f2 = append_citations_cell [OF demo_append2 [of True] v, unfolded citations_demo option.case l]
  have g1: "\<exists>tp' r. map_of (tables demo_conn3) (name demo_store1) = Some tp' \<and>
      map_of (tables demo_conn3) (name demo_store1 @ ''_citations'') = Some demo_citations1 \<and>
      r \<in> set (rows tp') \<and> rid r = 2 \<and> rvals r ''citations'' = Null \<and>
      citation_phase demo_store1 demo_conn1 paper_a = (Inr None, demo_conn1)"
    using f1 by blast
  have g2: "\<exists>tp' tc' r ids c1. map_of (tables demo_conn2) (name demo_store1) = Some tp' \<and>
      map_of (tables demo_conn2) (name demo_store1 @ ''_citations'') = Some tc' \<and>
      r \<in> set (rows tp') \<and> rid r = 2 \<and>
      insert_citations demo_conn1 (name demo_store1 @ ''_citations'') [paper_b, paper_d] [] =
        (Inr ids, c1) \<and>
      rvals r ''citations'' = Ints ids \<and> length ids = 2 \<and> list_all (has_id tc') ids \<and>
      list_all2 (stands tc') ids [paper_b, paper_d]"
    using f2 ty by blast
  show ?thesis
    using demo_append3 [of True] demo_append2 [of True] v g1 g2 by blast
qed

section \<open>Attaching to a table\<close>

text \<open>
  C8, as amended. Attached to a table that exists, the constructor writes nothing (the
  connection is what it was) and loads the identifiers of all the rows of the table, in
  the order in which the scan returns the rows: the identifier at position \<open>j\<close> of the list
  is that of the \<open>j\<close>-th row of the scan, and \<^verbatim>\<open>store[j]\<close> resolves that identifier. The
  list ascends exactly when the scan returns the rows by ascending identifier.
\<close>

theorem init_attach_scan_order:
  assumes "\<not> aborted c" and "map_of (tables c) tn = Some t"
  shows "\<exists>s. init_attach c tn = (Inr s, c) \<and> name s = tn \<and>
    length (rowIds s) = length (rows t) \<and>
    (\<forall>j<length (rows t). rowIds s ! j = rid (rows t ! j) \<and>
       getitem s c (int j) = get_by_id s c (rid (rows t ! j))) \<and>
    (sorted_wrt (<) (rowIds s) \<longleftrightarrow>
       (\<forall>j k. j < k \<and> k < length (rows t) \<longrightarrow> rid (rows t ! j) < rid (rows t ! k)))"
proof -
  let ?s = "\<lparr>rowIds = map rid (rows t), name = tn, cols = columns\<rparr>"
  have att: "init_attach c tn = (Inr ?s, c)"
    using assms by (simp add: init_attach_def attach_db_def column_names_def)
  have "getitem ?s c (int j) = get_by_id ?s c (rid (rows t ! j))" if "j < length (rows t)" for j
    using that by (simp add: getitem_def list_getitem_def Let_def)
  moreover have "sorted_wrt (<) (map rid (rows t)) \<longleftrightarrow>
      (\<forall>j k. j < k \<and> k < length (rows t) \<longrightarrow> rid (rows t ! j) < rid (rows t ! k))"
    by (auto simp: sorted_wrt_iff_nth_less)
  ultimately show ?thesis
    using att by (intro exI [of _ ?s]) simp
qed

theorem init_attach_scan_order_witness:
  "\<not> aborted shuffled_conn \<and>
   map_of (tables shuffled_conn) ''t'' = Some shuffled_table \<and>
   (\<exists>s. init_attach shuffled_conn ''t'' = (Inr s, shuffled_conn) \<and> rowIds s = [3, 1, 2] \<and>
        getitem s shuffled_conn 0 = get_by_id s shuffled_conn 3 \<and>
        \<not> sorted_wrt (<) (rowIds s))"
proof -
  have a: "\<not> aborted shuffled_conn" and t: "map_of (tables shuffled_conn) ''t'' = Some shuffled_table"
    by (simp_all add: shuffled_conn_def)
  from init_attach_scan_order [OF a t]
  obtain s where s: "init_attach shuffled_conn ''t'' = (Inr s, shuffled_conn)"
      "length (rowIds s) = length (rows shuffled_table)"
      "\<forall>j<length (rows shuffled_table). rowIds s ! j = rid (rows shuffled_table ! j) \<and>
         getitem s shuffled_conn (int j) = get_by_id s shuffled_conn (rid (rows shuffled_table ! j))"
    by blast
  have len: "length (rows shuffled_table) = 3" by (simp add: shuffled_table_def)
  have n: "rowIds s ! 0 = 3" "rowIds s ! 1 = 1" "rowIds s ! 2 = 2"
    "getitem s shuffled_conn (int 0) = get_by_id s shuffled_conn 3"
    using s(3) [rule_format, of 0] s(3) [rule_format, of 1] s(3) [rule_format, of 2] len
    by (simp_all add: shuffled_table_def)
  have "rowIds s = [3, 1, 2]"
    using s(2) len n(1,2,3)
    by (intro nth_equalityI) (auto simp: less_Suc_eq numeral_3_eq_3 numeral_2_eq_2)
  then show ?thesis
    using a t s(1) n(4) by auto
qed

text \<open>
  The claim as stated fails: the statement is \<^verbatim>\<open>SELECT id FROM t\<close> without \<^verbatim>\<open>ORDER BY\<close>, and
  for a table whose rows are not stored by ascending identifier the list is not sorted.
\<close>

theorem init_attach_unsorted:
  "init_attach unordered_conn ''t'' =
     (Inr \<lparr>rowIds = [2, 1], name = ''t'', cols = columns\<rparr>, unordered_conn) \<and>
   \<not> sorted [2, 1 :: int]"
  by (simp add: init_attach_def attach_db_def column_names_def unordered_conn_def)

section \<open>Round trip\<close>

lemma clash_citation_row:
  "clash (field y) \<lparr>rid = i, rvals = scalar_row (field x)\<rparr> = shares_key x y"
proof -
  have "(field y k \<noteq> Null \<and> scalar_row (field x) k = field y k) =
      (field x k \<noteq> Null \<and> field x k = field y k)" if "k \<in> set unique_cols" for k
    using scalar_row_unique [OF that, of "field x"] by auto
  then show ?thesis
    by (simp add: clash_def shares_key_def list_ex_iff)
qed

lemma scalar_row_idem: "scalar_row (scalar_row f) = scalar_row f"
  by (auto simp: fun_eq_iff scalar_row_def)

lemma same_scalars_row: "same_scalars (Paper (scalar_row (field x)) cs) x"
  by (simp add: same_scalars_def list_all_iff scalar_row_def)

lemma paper_row_citations: "paper_row obj ids ''citations'' = cit_cell ids"
  by (simp add: paper_row_def)

text \<open>
  C2. A fresh store, a well-typed Paper with two well-typed citations that share no
  natural key: \<^verbatim>\<open>append\<close> returns, and \<^verbatim>\<open>store[0]\<close> then returns a Paper with the fields of
  the one appended whose \<^verbatim>\<open>citations\<close> are two Papers, in the order given, with the fields of
  the two citations (the natural keys and the titles among them), wherever the server has
  put the rows.
\<close>

theorem round_trip_two_citations:
  assumes "init_fresh c0 u = (Inr s0, c1)" and "plain_name u"
    and "citations obj = Some [b1, b2]" and "\<not> shares_key b1 b2"
    and "well_typed obj" and "well_typed b1" and "well_typed b2"
  shows "\<exists>s c p r1 r2. append s0 c1 obj b = (Inr (), s, c) \<and>
    getitem s c 0 = (Inr p, c) \<and> same_scalars p obj \<and>
    citations p = Some [r1, r2] \<and> same_scalars r1 b1 \<and> same_scalars r2 b2"
proof -
  let ?e = "\<lparr>rows = [], serial = 0\<rparr> :: table"
  let ?n = "fresh_name u"
  let ?pl = "place c1 (name s0 @ ''_citations'')"
  let ?x1 = "\<lparr>rid = 1, rvals = scalar_row (field b1)\<rparr>"
  let ?x2 = "\<lparr>rid = 2, rvals = scalar_row (field b2)\<rparr>"
  let ?tc = "\<lparr>rows = put (?pl \<lparr>rows = [?x1], serial = 1\<rparr>) ?x2 [?x1], serial = 2\<rparr>"
  let ?r = "\<lparr>rid = 1, rvals = paper_row obj (Some [1, 2])\<rparr>"
  let ?tp = "\<lparr>rows = [?r], serial = 1\<rparr>"
  let ?s = "s0\<lparr>rowIds := rowIds s0 @ [1]\<rparr>"
  let ?c = "c1\<lparr>tables := AList.update (name s0) ?tp
      (AList.update (name s0 @ ''_citations'') ?tc (tables c1))\<rparr>"
  note i = init_fresh_result [OF assms(1)]
  have s0: "name s0 = ?n" "cols s0 = columns" "rowIds s0 = []" using i(1) by simp_all
  have step1: "dedup_step ?pl ?e b1 = (1, \<lparr>rows = [?x1], serial = 1\<rparr>)"
    by (simp add: dedup_step_def clash_cols_def put_Nil)
  have "clash_cols [?x1] (field b2) = []"
    using assms(4) by (simp add: clash_cols_Nil clash_citation_row)
  then have step2: "dedup_step ?pl \<lparr>rows = [?x1], serial = 1\<rparr> b2 = (2, ?tc)"
    by (simp add: dedup_step_def clash_cols_scalar_row)
  have cit: "cit_result ?pl ?e obj = (Some [1, 2], ?tc)"
    using assms(3) by (simp add: cit_result_def step1 step2)
  have ty: "all_typed obj"
    using assms(3,5,6,7) by (simp add: all_typed_def)
  have "append s0 c1 obj b =
    (Inr (), s0\<lparr>rowIds := rowIds s0 @ [serial ?e + 1]\<rparr>,
     c1\<lparr>tables := AList.update (name s0)
        \<lparr>rows = put (place c1 (name s0) ?e)
           \<lparr>rid = serial ?e + 1, rvals = paper_row obj (fst (cit_result ?pl ?e obj))\<rparr> (rows ?e),
         serial = serial ?e + 1\<rparr>
        (AList.update (name s0 @ ''_citations'') (snd (cit_result ?pl ?e obj)) (tables c1))\<rparr>)"
    using i(2,3,4) assms(2,3) ty
    by (intro append_new) (simp_all add: s0 bounded_def plain_name_fresh clash_cols_def room_def)
  then have app: "append s0 c1 obj b = (Inr (), ?s, ?c)"
    by (simp add: cit put_Nil)
  have db: "map_of (tables ?c) (name ?s) = Some ?tp"
    "map_of (tables ?c) (name ?s @ ''_citations'') = Some ?tc"
    by (simp_all add: update_conv')
  let ?sub = "\<lparr>rowIds = map rid (rows ?tc), name = name ?s @ ''_citations'', cols = columns\<rparr>"
  have att: "attach_db (tables ?c) (name ?s @ ''_citations'') = Inr ?sub"
    using db(2) by (simp add: attach_db_def column_names_def)
  have dis: "distinct (map rid (rows ?tc))"
    by (simp add: map_put distinct_put)
  have g1: "get_by_id_db (tables ?c) ?sub (rid ?x1) = Inr (Paper (scalar_row (rvals ?x1)) None)"
    using db(2) dis
    by (intro get_by_id_db_citation_row [where tc = ?tc]) (simp_all add: scalar_row_citations set_put)
  have g2: "get_by_id_db (tables ?c) ?sub (rid ?x2) = Inr (Paper (scalar_row (rvals ?x2)) None)"
    using db(2) dis
    by (intro get_by_id_db_citation_row [where tc = ?tc]) (simp_all add: scalar_row_citations set_put)
  let ?r1 = "Paper (scalar_row (field b1)) None" and ?r2 = "Paper (scalar_row (field b2)) None"
  have res: "map_results (\<lambda>k. get_by_id_db (tables ?c) ?sub k) [1, 2] = Inr [?r1, ?r2]"
    using g1 g2 by (simp add: scalar_row_idem)
  let ?p = "Paper (scalar_row (rvals ?r)) (Some [?r1, ?r2])"
  have cs: "cols ?s = columns" by (simp add: s0)
  have "yield_paper (tables ?c) ?s (Some (tuple_of ?r)) =
      yield_cells (Inr (\<lambda>k. get_by_id_db (tables ?c) ?sub k)) columns (tuple_of ?r) new_paper"
    by (simp only: yield_paper.simps att cs yield_paper_with_def sum.case option.case)
  also have "\<dots> =
      (case map_results (\<lambda>k. get_by_id_db (tables ?c) ?sub k) [1, 2] of
         Inl e \<Rightarrow> Inl e
       | Inr ps \<Rightarrow> Inr (Paper (scalar_row (rvals ?r)) (Some ps)))"
    by (rule yield_row_ints) (simp add: paper_row_citations cit_cell_def)
  also have "\<dots> = Inr ?p"
    by (simp only: res sum.case)
  finally have "yield_paper (tables ?c) ?s (Some (tuple_of ?r)) = Inr ?p" .
  then have "get_by_id_db (tables ?c) ?s 1 = Inr ?p"
    using db(1) by (simp add: get_by_id_db.simps fetch_by_id_def)
  then have get: "getitem ?s ?c 0 = (Inr ?p, ?c)"
    using i(2) by (simp add: getitem_def list_getitem_def s0 get_by_id_def Let_def)
  have "same_scalars ?p obj"
    by (simp add: same_scalars_def list_all_iff scalar_row_def paper_row_def citations_not_scalar)
  then show ?thesis
    using app get same_scalars_row [of b1 None] same_scalars_row [of b2 None] by force
qed

theorem round_trip_two_citations_witness:
  "init_fresh empty_conn demo_uuid = (Inr (fresh_store demo_uuid), fresh_conn demo_uuid) \<and>
   plain_name demo_uuid \<and> citations paper_e = Some [paper_b, paper_d] \<and>
   shares_key paper_b paper_d = False \<and>
   well_typed paper_e \<and> well_typed paper_b \<and> well_typed paper_d \<and>
   (\<exists>s c p r1 r2.
      append (fresh_store demo_uuid) (fresh_conn demo_uuid) paper_e True = (Inr (), s, c) \<and>
      getitem s c 0 = (Inr p, c) \<and> same_scalars p paper_e \<and>
      citations p = Some [r1, r2] \<and> same_scalars r1 paper_b \<and> same_scalars r2 paper_d)"
proof -
  have c: "citations paper_e = Some [paper_b, paper_d]" by (simp add: paper_e_def)
  have k: "\<not> shares_key paper_b paper_d"
    by (simp add: shares_key_def paper_b_def paper_d_def unique_cols_def)
  show ?thesis
    using round_trip_two_citations [OF init_fresh_empty plain_demo_uuid c k
        well_typed_demo(6,2,5), of True]
      init_fresh_empty plain_demo_uuid c k well_typed_demo
    by simp
qed

section \<open>A citation shared by two Papers\<close>

lemma shares_key_sym: "shares_key x y = shares_key y x"
  by (auto simp: shares_key_def list_ex_iff)

lemma same_keys_shares: "same_keys z x \<Longrightarrow> shares_key z y = shares_key x y"
  by (auto simp: same_keys_def shares_key_def list_all_iff list_ex_iff)

lemma same_keys_clash: "same_keys z x \<Longrightarrow> clash (field z) r = clash (field x) r"
  by (auto simp: same_keys_def clash_def list_all_iff list_ex_iff)

lemma same_keys_clash_cols:
  assumes "same_keys z x"
  shows "clash_cols rs (field z) = clash_cols rs (field x)"
  unfolding clash_cols_def
  by (rule filter_cong) (use assms in \<open>auto simp: same_keys_def list_all_iff\<close>)

lemma stored_rows_Nil: "stored_rows x t = [] \<longleftrightarrow> clash_cols (rows t) (field x) = []"
  by (simp add: stored_rows_def clash_cols_Nil filter_empty_conv)

lemma dedup_step_first:
  assumes "same_keys z x" and "shares_key x x" and "stored_rows x t = []"
  shows "fst (dedup_step pl t z) = serial t + 1"
    and "stored_rows x (snd (dedup_step pl t z)) = [\<lparr>rid = serial t + 1, rvals = scalar_row (field z)\<rparr>]"
proof -
  have "clash_cols (rows t) (field z) = []"
    using assms(1,3) by (simp add: same_keys_clash_cols stored_rows_Nil)
  then have step: "dedup_step pl t z = (serial t + 1,
      \<lparr>rows = put (pl t) \<lparr>rid = serial t + 1, rvals = scalar_row (field z)\<rparr> (rows t),
       serial = serial t + 1\<rparr>)"
    by (simp add: dedup_step_def clash_cols_scalar_row)
  then show "fst (dedup_step pl t z) = serial t + 1" by simp
  have "clash (field x) \<lparr>rid = serial t + 1, rvals = scalar_row (field z)\<rparr>"
    using assms(1,2) by (simp add: clash_citation_row same_keys_shares)
  then show "stored_rows x (snd (dedup_step pl t z)) = [\<lparr>rid = serial t + 1, rvals = scalar_row (field z)\<rparr>]"
    using assms(3) by (simp add: step stored_rows_def filter_put_first)
qed

lemma dedup_step_again:
  assumes "same_keys z x" and "stored_rows x t = [r]"
  shows "dedup_step pl t z = (rid r, t\<lparr>serial := serial t + 1\<rparr>)"
proof -
  have "r \<in> set (filter (clash (field x)) (rows t))"
    using assms(2) by (simp add: stored_rows_def)
  then have r: "r \<in> set (rows t)" "clash (field x) r"
    by simp_all
  then have "clash (field z) r" using assms(1) by (simp add: same_keys_clash)
  then have ne: "clash_cols (rows t) (field z) \<noteq> []"
    using r(1) by (auto simp: clash_cols_Nil)
  show ?thesis
  proof (rule dedup_step_cases [where t = t and x = z and pl = pl])
    assume "clash_cols (rows t) (field z) = []"
    then show ?thesis using ne by simp
  next
    fix k ks r'
    assume k: "clash_cols (rows t) (field z) = k # ks"
      and f: "find (\<lambda>r. rvals r k = field z k) (rows t) = Some r'"
      and d: "dedup_step pl t z = (rid r', t\<lparr>serial := serial t + 1\<rparr>)"
    have r': "r' \<in> set (rows t)" "rvals r' k = field z k"
      using f by (auto dest: find_SomeD)
    have "clash (field z) r'"
      using clash_cols_Cons(1,2) [OF k] r'(2) by (auto simp: clash_def list_ex_iff)
    then have "clash (field x) r'" using assms(1) by (simp add: same_keys_clash)
    then have "r' \<in> set (stored_rows x t)" using r'(1) by (simp add: stored_rows_def)
    then have "r' = r" using assms(2) by simp
    then show ?thesis using d by simp
  qed
qed

lemma dedup_step_other:
  assumes "\<not> shares_key z x"
  shows "stored_rows x (snd (dedup_step pl t z)) = stored_rows x t"
  by (rule dedup_step_cases [where t = t and x = z and pl = pl])
     (use assms in \<open>simp_all add: stored_rows_def clash_citation_row filter_put_other\<close>)

lemma dedup_steps_stored:
  assumes "stored_rows x t = [r]" and "\<forall>z\<in>set zs. shares_key z x \<longrightarrow> same_keys z x"
  shows "stored_rows x (snd (dedup_steps pl t zs)) = [r] \<and>
    ((\<exists>z\<in>set zs. shares_key z x) \<longrightarrow> rid r \<in> set (fst (dedup_steps pl t zs)))"
  using assms
proof (induction zs arbitrary: t)
  case Nil
  then show ?case by simp
next
  case (Cons z zs)
  obtain i t1 where s1: "dedup_step pl t z = (i, t1)" by (cases "dedup_step pl t z")
  obtain ids t2 where s2: "dedup_steps pl t1 zs = (ids, t2)" by (cases "dedup_steps pl t1 zs")
  have t1: "stored_rows x t1 = [r]" and i: "shares_key z x \<longrightarrow> i = rid r"
  proof -
    show "stored_rows x t1 = [r]"
    proof (cases "shares_key z x")
      case True
      then have "same_keys z x" using Cons.prems(2) by simp
      from dedup_step_again [OF this Cons.prems(1), of pl] show ?thesis
        using s1 Cons.prems(1) by (simp add: stored_rows_def)
    next
      case False
      from dedup_step_other [OF this, of pl t] show ?thesis using s1 Cons.prems(1) by simp
    qed
    show "shares_key z x \<longrightarrow> i = rid r"
    proof
      assume "shares_key z x"
      then have "same_keys z x" using Cons.prems(2) by simp
      from dedup_step_again [OF this Cons.prems(1), of pl] show "i = rid r" using s1 by simp
    qed
  qed
  have "stored_rows x t2 = [r] \<and> ((\<exists>z\<in>set zs. shares_key z x) \<longrightarrow> rid r \<in> set ids)"
    using Cons.IH [OF t1] Cons.prems(2) s2 by simp
  then show ?case using s1 s2 i by auto
qed

lemma dedup_steps_store:
  assumes "stored_rows x t = []" and "\<forall>z\<in>set zs. shares_key z x \<longrightarrow> same_keys z x"
    and "shares_key x x" and "z0 \<in> set zs" and "shares_key z0 x"
  shows "\<exists>r. stored_rows x (snd (dedup_steps pl t zs)) = [r] \<and>
    rid r \<in> set (fst (dedup_steps pl t zs))"
  using assms(1,2,4)
proof (induction zs arbitrary: t)
  case Nil
  then show ?case by simp
next
  case (Cons z zs)
  obtain i t1 where s1: "dedup_step pl t z = (i, t1)" by (cases "dedup_step pl t z")
  obtain ids t2 where s2: "dedup_steps pl t1 zs = (ids, t2)" by (cases "dedup_steps pl t1 zs")
  show ?case
  proof (cases "shares_key z x")
    case True
    then have sk: "same_keys z x" using Cons.prems(2) by simp
    let ?r = "\<lparr>rid = serial t + 1, rvals = scalar_row (field z)\<rparr>"
    have "i = rid ?r" "stored_rows x t1 = [?r]"
      using dedup_step_first [OF sk assms(3) Cons.prems(1), of pl] s1 by simp_all
    moreover from dedup_steps_stored [OF this(2), of zs pl] Cons.prems(2)
    have "stored_rows x t2 = [?r]" using s2 by simp
    ultimately show ?thesis using s1 s2 by (intro exI [of _ ?r]) simp
  next
    case False
    have "stored_rows x t1 = []"
      using dedup_step_other [OF False, of pl t] s1 Cons.prems(1) by simp
    moreover have "z0 \<in> set zs" using Cons.prems(3) False assms(5) by auto
    ultimately have "\<exists>r. stored_rows x t2 = [r] \<and> rid r \<in> set ids"
      using Cons.IH [of t1] Cons.prems(2) s2 by simp
    then show ?thesis using s1 s2 by auto
  qed
qed

lemma clash_paper_row:
  "clash (field y) \<lparr>rid = i, rvals = paper_row x ids\<rparr> = shares_key x y"
proof -
  have "(field y k \<noteq> Null \<and> paper_row x ids k = field y k) =
      (field x k \<noteq> Null \<and> field x k = field y k)" if "k \<in> set unique_cols" for k
    using paper_row_unique [OF that, of x ids] by auto
  then show ?thesis
    by (simp add: clash_def shares_key_def list_ex_iff)
qed

lemma clash_cols_put:
  "clash_cols (put k r rs) f = [] \<longleftrightarrow> clash_cols rs f = [] \<and> \<not> clash f r"
  by (auto simp: clash_cols_Nil set_put)

text \<open>
  C1. In a store whose tables exist, two well-typed Papers are appended while the
  sequences last; a citation \<open>x\<close> of the first and a citation \<open>y\<close> of the second have the
  same natural keys (one of them not null), no other citation of either Paper shares a
  natural key with \<open>x\<close> unless it has the same keys, and no stored row holds a key of \<open>x\<close>.
  Then both calls return, each has written the row of its Paper, the citation table ends
  with exactly one row holding a key of \<open>x\<close>, and the identifier of that row is in the
  \<^verbatim>\<open>citations\<close> cell of both rows. (The second insert of the citation fails on the unique
  index; the column is read off the message and the row found by its value: this is the
  case \<open>found\<close> of \<open>insert_citation_cases\<close>, through \<open>insert_citations_steps\<close>.)
\<close>

theorem shared_citation_stored_once:
  assumes "\<not> aborted c" and "map_of (tables c) (name s) = Some tp"
    and "map_of (tables c) (name s @ ''_citations'') = Some tc"
    and "bounded tp" and "bounded tc" and "plain_name (name s)"
    and "all_typed pa" and "all_typed pc"
    and "serial tp + 2 \<le> 2147483647"
    and "serial tc + int (length as) + int (length cs) \<le> 2147483647"
    and "citations pa = Some as" and "x \<in> set as"
    and "citations pc = Some cs" and "y \<in> set cs"
    and "same_keys y x" and "shares_key x x"
    and "\<forall>z\<in>set (as @ cs). shares_key z x \<longrightarrow> same_keys z x"
    and "stored_rows x tc = []"
    and "clash_cols (rows tp) (field pa) = []" and "clash_cols (rows tp) (field pc) = []"
    and "\<not> shares_key pa pc"
  shows "\<exists>s1 c1 s2 c2 tp2 tc2 ra rc r idsA idsC.
    append s c pa b1 = (Inr (), s1, c1) \<and> append s1 c1 pc b2 = (Inr (), s2, c2) \<and>
    rowIds s2 = rowIds s @ [rid ra, rid rc] \<and>
    map_of (tables c2) (name s) = Some tp2 \<and>
    map_of (tables c2) (name s @ ''_citations'') = Some tc2 \<and>
    set (rows tp2) = set (rows tp) \<union> {ra, rc} \<and> stored_rows x tc2 = [r] \<and>
    rvals ra = paper_row pa (Some idsA) \<and> rid r \<in> set idsA \<and>
    rvals rc = paper_row pc (Some idsC) \<and> rid r \<in> set idsC"
proof -
  let ?n = "name s" and ?cn = "name s @ ''_citations''" and ?pl = "place c (name s @ ''_citations'')"
  \<comment> \<open>the first Paper\<close>
  let ?idsA = "fst (dedup_steps ?pl tc as)" and ?tcA = "snd (dedup_steps ?pl tc as)"
  have citA: "cit_result ?pl tc pa = (Some ?idsA, ?tcA)"
    using assms(11) by (simp add: cit_result_def)
  have onlyA: "\<forall>z\<in>set as. shares_key z x \<longrightarrow> same_keys z x"
    and onlyC: "\<forall>z\<in>set cs. shares_key z x \<longrightarrow> same_keys z x"
    using assms(17) by auto
  obtain r where r: "stored_rows x ?tcA = [r]" "rid r \<in> set ?idsA"
    using dedup_steps_store [OF assms(18) onlyA assms(16) assms(12), of ?pl] assms(16) by blast
  let ?ra = "\<lparr>rid = serial tp + 1, rvals = paper_row pa (Some ?idsA)\<rparr>"
  let ?tp1 = "\<lparr>rows = put (place c ?n tp) ?ra (rows tp), serial = serial tp + 1\<rparr>"
  let ?s1 = "s\<lparr>rowIds := rowIds s @ [serial tp + 1]\<rparr>"
  let ?c1 = "c\<lparr>tables := AList.update ?n ?tp1 (AList.update ?cn ?tcA (tables c))\<rparr>"
  have roomA: "room tc pa" "serial tp < 2147483647"
    using assms(9,10,11) by (simp_all add: room_def)
  from append_new [OF assms(1-6) assms(7) roomA assms(19), of b1]
  have appA: "append s c pa b1 = (Inr (), ?s1, ?c1)"
    by (simp add: citA)
  \<comment> \<open>the state between the calls\<close>
  have btp1: "bounded ?tp1"
    using bounded_insert(1) [OF assms(4) roomA(2)] .
  have btcA: "bounded ?tcA"
    using assms(10) by (intro bounded_dedup_steps [OF assms(5)]) simp
  have v1: "\<not> aborted ?c1" "map_of (tables ?c1) (name ?s1) = Some ?tp1"
    "map_of (tables ?c1) (name ?s1 @ ''_citations'') = Some ?tcA"
    "bounded ?tp1" "bounded ?tcA" "plain_name (name ?s1)"
    using assms(1,6) btp1 btcA by (simp_all add: update_conv')
  have pl1: "place ?c1 = place c" by simp
  \<comment> \<open>the second Paper\<close>
  let ?idsC = "fst (dedup_steps ?pl ?tcA cs)" and ?tcC = "snd (dedup_steps ?pl ?tcA cs)"
  have citC: "cit_result ?pl ?tcA pc = (Some ?idsC, ?tcC)"
    using assms(13) by (simp add: cit_result_def)
  have "shares_key y x" using assms(15,16) by (simp add: same_keys_shares)
  then have rc: "stored_rows x ?tcC = [r]" "rid r \<in> set ?idsC"
    using dedup_steps_stored [OF r(1) onlyC, of ?pl] assms(14) by auto
  let ?rc = "\<lparr>rid = serial ?tp1 + 1, rvals = paper_row pc (Some ?idsC)\<rparr>"
  let ?tp2 = "\<lparr>rows = put (place c ?n ?tp1) ?rc (rows ?tp1), serial = serial ?tp1 + 1\<rparr>"
  let ?s2 = "?s1\<lparr>rowIds := rowIds ?s1 @ [serial ?tp1 + 1]\<rparr>"
  let ?c2 = "?c1\<lparr>tables := AList.update (name ?s1) ?tp2
      (AList.update (name ?s1 @ ''_citations'') ?tcC (tables ?c1))\<rparr>"
  have roomC: "room ?tcA pc" "serial ?tp1 < 2147483647"
    using assms(9,10,13) by (simp_all add: room_def serial_dedup_steps)
  have clC: "clash_cols (rows ?tp1) (field pc) = []"
    using assms(20,21) by (simp add: clash_cols_put clash_paper_row)
  have nm: "name ?s1 = name s" by simp
  from append_new [OF v1 assms(8) roomC clC, of b2]
  have appC: "append ?s1 ?c1 pc b2 = (Inr (), ?s2, ?c2)"
    by (simp only: pl1 nm citC fst_conv snd_conv)
  have t2: "map_of (tables ?c2) ?n = Some ?tp2" "map_of (tables ?c2) ?cn = Some ?tcC"
    by (simp_all add: update_conv')
  have rows2: "set (rows ?tp2) = set (rows tp) \<union> {?ra, ?rc}" by (auto simp: set_put)
  have ids2: "rowIds ?s2 = rowIds s @ [rid ?ra, rid ?rc]" by simp
  have cells: "rvals ?ra = paper_row pa (Some ?idsA)" "rvals ?rc = paper_row pc (Some ?idsC)"
    by simp_all
  show ?thesis
    using appA appC ids2 t2 rows2 rc r(2) cells by blast
qed

theorem shared_citation_stored_once_witness:
  "\<not> aborted (fresh_conn demo_uuid) \<and>
   all_typed paper_c \<and> all_typed paper_e \<and>
   citations paper_c = Some [paper_b] \<and> citations paper_e = Some [paper_b, paper_d] \<and>
   same_keys paper_b paper_b \<and> shares_key paper_b paper_b \<and>
   shares_key paper_d paper_b = False \<and> shares_key paper_c paper_e = False \<and>
   (\<exists>s1 c1 s2 c2 tp2 tc2 ra rc r idsA idsC.
      append (fresh_store demo_uuid) (fresh_conn demo_uuid) paper_c True = (Inr (), s1, c1) \<and>
      append s1 c1 paper_e True = (Inr (), s2, c2) \<and>
      rowIds s2 = [rid ra, rid rc] \<and>
      map_of (tables c2) (fresh_name demo_uuid) = Some tp2 \<and>
      map_of (tables c2) (fresh_name demo_uuid @ ''_citations'') = Some tc2 \<and>
      set (rows tp2) = {ra, rc} \<and> stored_rows paper_b tc2 = [r] \<and>
      rvals ra = paper_row paper_c (Some idsA) \<and> rid r \<in> set idsA \<and>
      rvals rc = paper_row paper_e (Some idsC) \<and> rid r \<in> set idsC)"
proof -
  let ?e = "\<lparr>rows = [], serial = 0\<rparr> :: table"
  have v: "\<not> aborted (fresh_conn demo_uuid)"
    "map_of (tables (fresh_conn demo_uuid)) (name (fresh_store demo_uuid)) = Some ?e"
    "map_of (tables (fresh_conn demo_uuid)) (name (fresh_store demo_uuid) @ ''_citations'') = Some ?e"
    "bounded ?e" "bounded ?e" "plain_name (name (fresh_store demo_uuid))"
    by (simp_all add: fresh_conn_def fresh_store_def bounded_def plain_name_fresh plain_demo_uuid)
  have rm: "serial ?e + 2 \<le> 2147483647"
    "serial ?e + int (length [paper_b]) + int (length [paper_b, paper_d]) \<le> 2147483647"
    by simp_all
  have k: "same_keys paper_b paper_b" "shares_key paper_b paper_b"
    "\<not> shares_key paper_d paper_b" "\<not> shares_key paper_c paper_e"
    by (simp_all add: same_keys_def shares_key_def unique_cols_def paper_b_def paper_c_def
        paper_d_def paper_e_def)
  have only: "\<forall>z\<in>set ([paper_b] @ [paper_b, paper_d]). shares_key z paper_b \<longrightarrow> same_keys z paper_b"
    using k(1,3) by simp
  have new: "stored_rows paper_b ?e = []" "clash_cols (rows ?e) (field paper_c) = []"
    "clash_cols (rows ?e) (field paper_e) = []"
    by (simp_all add: stored_rows_def clash_cols_def)
  have n: "name (fresh_store demo_uuid) = fresh_name demo_uuid"
    "rowIds (fresh_store demo_uuid) = []"
    by (simp_all add: fresh_store_def)
  have r: "set (rows ?e) \<union> {ra, rc} = {ra, rc}" "[] @ [rid ra, rid rc] = [rid ra, rid rc]"
    for ra rc :: row by simp_all
  note t = shared_citation_stored_once [OF v all_typed_demo(2,3) rm citations_demo(2) _
      citations_demo(3) _ k(1,2) only new k(4),
      where ?b1.0 = True and ?b2.0 = True, unfolded n r]
  show ?thesis
    using t v(1) all_typed_demo citations_demo k by simp
qed

section \<open>What a store holds\<close>












section \<open>Indexing\<close>


section \<open>Runs of appends that end otherwise\<close>










end
